theory Spec2Isabelle
  imports Complex_Main "HOL-Library.Multiset"
begin

section \<open>Floating-point values\<close>

text \<open>
  The engine of \<^verbatim>\<open>src/app.py\<close> computes on NumPy \<^verbatim>\<open>float64\<close> arrays. A value is a
  finite number, one of the two infinities, or NaN. The finite values are the binary64
  numbers: the multiples \<open>k * 2\<^sup>e\<close> of a power of two with \<open>\<bar>k\<bar> < 2\<^sup>5\<^sup>3\<close> and \<open>e \<ge> -1074\<close>
  that are below \<open>2\<^sup>1\<^sup>0\<^sup>2\<^sup>4\<close> in magnitude. Addition, multiplication, division and the
  square root return the exact result rounded to the nearest such number, a tie going
  to the even significand, and an infinity when the rounded magnitude reaches
  \<open>2\<^sup>1\<^sup>0\<^sup>2\<^sup>4\<close>, as IEEE 754 prescribes; small results round into the subnormal range and
  to zero below it. The special values follow IEEE 754 as NumPy applies them under its
  default error state, where a division by zero or an invalid operation emits a
  warning and yields an infinity or NaN instead of raising. The zero carries no sign:
  every divisor in the engine is a square root or a sum of two square roots, which is
  never the negative zero, and a zero numerator or summand gives the same result
  under either sign up to the sign of a zero.
\<close>

text \<open>The power \<open>2\<^sup>e\<close> for an integer exponent.\<close>

definition pow2 :: "int \<Rightarrow> real" where
  "pow2 e = 2 powr real_of_int e"

text \<open>
  The binary exponent of a real: \<open>\<lfloor>log\<^sub>2 \<bar>x\<bar>\<rfloor>\<close>, and \<open>-1022\<close> in the subnormal range and at
  zero. The spacing of the binary64 numbers around \<open>x\<close> is \<open>2\<close> to that exponent less 52.
\<close>

definition expo :: "real \<Rightarrow> int" where
  "expo x = (if x = 0 then - 1022 else max (- 1022) \<lfloor>log 2 \<bar>x\<bar>\<rfloor>)"

definition ulp :: "real \<Rightarrow> real" where
  "ulp x = pow2 (expo x - 52)"

text \<open>The nearest integer, a tie going to the even one.\<close>

definition rne :: "real \<Rightarrow> int" where
  "rne t =
     (let f = \<lfloor>t\<rfloor>
      in if t - of_int f < 1 / 2 then f
         else if 1 / 2 < t - of_int f then f + 1
         else if even f then f else f + 1)"

text \<open>Rounding to the nearest multiple of the spacing, the exponent range unbounded above.\<close>

definition round_real :: "real \<Rightarrow> real" where
  "round_real x = of_int (rne (x / ulp x)) * ulp x"

datatype fl = Fin real | PInf | NInf | NaN

text \<open>The \<^verbatim>\<open>float64\<close> result of an operation whose exact result is the real \<open>x\<close>.\<close>

definition round64 :: "real \<Rightarrow> fl" where
  "round64 x =
     (let y = round_real x
      in if pow2 1024 \<le> \<bar>y\<bar> then (if 0 < x then PInf else NInf) else Fin y)"

fun fneg :: "fl \<Rightarrow> fl" where
  "fneg (Fin a) = Fin (- a)"
| "fneg PInf = NInf"
| "fneg NInf = PInf"
| "fneg NaN = NaN"

fun fadd :: "fl \<Rightarrow> fl \<Rightarrow> fl" where
  "fadd (Fin a) (Fin b) = round64 (a + b)"
| "fadd NaN _ = NaN"
| "fadd _ NaN = NaN"
| "fadd PInf NInf = NaN"
| "fadd NInf PInf = NaN"
| "fadd PInf _ = PInf"
| "fadd _ PInf = PInf"
| "fadd NInf _ = NInf"
| "fadd _ NInf = NInf"

definition fsub :: "fl \<Rightarrow> fl \<Rightarrow> fl" where
  "fsub a b = fadd a (fneg b)"

fun fmul :: "fl \<Rightarrow> fl \<Rightarrow> fl" where
  "fmul (Fin a) (Fin b) = round64 (a * b)"
| "fmul NaN _ = NaN"
| "fmul _ NaN = NaN"
| "fmul PInf (Fin b) = (if b = 0 then NaN else if 0 < b then PInf else NInf)"
| "fmul NInf (Fin b) = (if b = 0 then NaN else if 0 < b then NInf else PInf)"
| "fmul (Fin a) PInf = (if a = 0 then NaN else if 0 < a then PInf else NInf)"
| "fmul (Fin a) NInf = (if a = 0 then NaN else if 0 < a then NInf else PInf)"
| "fmul PInf PInf = PInf"
| "fmul PInf NInf = NInf"
| "fmul NInf PInf = NInf"
| "fmul NInf NInf = PInf"

text \<open>
  Division: \<open>0 / 0\<close> is NaN, a nonzero finite number over zero is the infinity of the
  numerator's sign (the zero is taken as positive), a finite number over an infinity is
  zero, and an infinity over an infinity is NaN.
\<close>

fun fdiv :: "fl \<Rightarrow> fl \<Rightarrow> fl" where
  "fdiv (Fin a) (Fin b) =
     (if b = 0 then (if a = 0 then NaN else if 0 < a then PInf else NInf)
      else round64 (a / b))"
| "fdiv NaN _ = NaN"
| "fdiv _ NaN = NaN"
| "fdiv (Fin a) PInf = Fin 0"
| "fdiv (Fin a) NInf = Fin 0"
| "fdiv PInf (Fin b) = (if 0 \<le> b then PInf else NInf)"
| "fdiv NInf (Fin b) = (if 0 \<le> b then NInf else PInf)"
| "fdiv PInf PInf = NaN"
| "fdiv PInf NInf = NaN"
| "fdiv NInf PInf = NaN"
| "fdiv NInf NInf = NaN"

fun fsqrt :: "fl \<Rightarrow> fl" where
  "fsqrt (Fin a) = (if a < 0 then NaN else round64 (sqrt a))"
| "fsqrt PInf = PInf"
| "fsqrt NInf = NaN"
| "fsqrt NaN = NaN"

text \<open>\<^verbatim>\<open>x**2\<close> on a float array squares each element.\<close>

definition fsquare :: "fl \<Rightarrow> fl" where
  "fsquare x = fmul x x"

text \<open>The comparison \<^verbatim>\<open><=\<close>: false whenever NaN takes part.\<close>

fun fle :: "fl \<Rightarrow> fl \<Rightarrow> bool" where
  "fle NaN _ = False"
| "fle _ NaN = False"
| "fle NInf _ = True"
| "fle _ PInf = True"
| "fle (Fin a) (Fin b) = (a \<le> b)"
| "fle PInf _ = False"
| "fle _ NInf = False"

text \<open>
  \<^verbatim>\<open>ndarray.max()\<close> and \<^verbatim>\<open>ndarray.min()\<close> reduce with \<^verbatim>\<open>np.maximum\<close> and
  \<^verbatim>\<open>np.minimum\<close>, which return NaN as soon as one operand is NaN.
\<close>

definition fmaximum :: "fl \<Rightarrow> fl \<Rightarrow> fl" where
  "fmaximum a b = (if a = NaN \<or> b = NaN then NaN else if fle a b then b else a)"

definition fminimum :: "fl \<Rightarrow> fl \<Rightarrow> fl" where
  "fminimum a b = (if a = NaN \<or> b = NaN then NaN else if fle a b then a else b)"

text \<open>The largest finite \<^verbatim>\<open>float64\<close>.\<close>

definition float_max :: real where
  "float_max = (2 - 1 / 2 ^ 52) * 2 ^ 1023"

text \<open>
  \<^verbatim>\<open>np.nan_to_num(V, nan=0.0)\<close> replaces NaN by \<open>0.0\<close>, plus infinity by the largest
  finite float and minus infinity by the most negative one. Its result is always a
  finite number, hence a real.
\<close>

fun nan_to_num :: "fl \<Rightarrow> real" where
  "nan_to_num (Fin a) = a"
| "nan_to_num NaN = 0"
| "nan_to_num PInf = float_max"
| "nan_to_num NInf = - float_max"

section \<open>Arrays\<close>

text \<open>
  The exceptions the engine can raise. \<open>AxisError\<close> is NumPy's error for a reduction
  along an axis the array does not have.
\<close>

datatype py_error = ValueError | IndexError | AxisError

text \<open>
  An array built from the caller's data is one-dimensional (\<open>Arr1\<close>, shape \<open>(k,)\<close>) or
  two-dimensional (\<open>Arr2 n rows\<close>, shape \<open>(length rows, n)\<close>, every row of length \<open>n\<close>).
\<close>

datatype ndarray = Arr1 "fl list" | Arr2 nat "fl list list"

text \<open>
  \<^verbatim>\<open>np.array(alternatives_data)\<close> on a list of rows. The empty list gives the
  one-dimensional array of shape \<open>(0,)\<close>; rows of one length \<open>n\<close> give shape \<open>(m, n)\<close>.
  Rows of different lengths raise \<open>ValueError\<close> (inhomogeneous shape) in NumPy 1.24 and
  later; earlier versions build an array of list objects, on which the next line of
  the engine, \<^verbatim>\<open>matrix**2\<close>, raises \<open>TypeError\<close>. Either way the call ends in an
  exception before any stage has produced a result; the model reports \<open>ValueError\<close>.
  The entries are \<^verbatim>\<open>float64\<close> values, as the route supplies them from the \<^verbatim>\<open>Float\<close>
  column of the stored values. Rows holding only Python integers would give an
  \<^verbatim>\<open>int64\<close> array, whose squares wrap modulo \<open>2\<^sup>6\<^sup>4\<close>; the route produces such rows only
  from its default \<^verbatim>\<open>0\<close>, on which the integer and the float computation agree.
\<close>

definition np_array :: "fl list list \<Rightarrow> py_error + ndarray" where
  "np_array data =
     (case data of
        [] \<Rightarrow> Inr (Arr1 [])
      | r # rs \<Rightarrow>
          if list_all (\<lambda>r'. length r' = length r) rs then Inr (Arr2 (length r) data)
          else Inl ValueError)"

text \<open>
  Broadcasting of an element-wise operation over two one-dimensional arrays: equal
  lengths pair up, a length-one operand is stretched, anything else is \<open>ValueError\<close>.
\<close>

definition broadcast1 :: "(fl \<Rightarrow> fl \<Rightarrow> fl) \<Rightarrow> fl list \<Rightarrow> fl list \<Rightarrow> py_error + fl list" where
  "broadcast1 f xs ys =
     (if length xs = length ys then Inr (map2 f xs ys)
      else if length ys = 1 then Inr (map (\<lambda>x. f x (hd ys)) xs)
      else if length xs = 1 then Inr (map (\<lambda>y. f (hd xs) y) ys)
      else Inl ValueError)"

text \<open>
  Broadcasting of an array against a one-dimensional array \<open>v\<close>: for shape \<open>(m, n)\<close> the
  last axis is matched against \<open>length v\<close>, so each row is combined with \<open>v\<close>.
\<close>

definition broadcast2 :: "(fl \<Rightarrow> fl \<Rightarrow> fl) \<Rightarrow> ndarray \<Rightarrow> fl list \<Rightarrow> py_error + ndarray" where
  "broadcast2 f a v =
     (case a of
        Arr1 xs \<Rightarrow> (case broadcast1 f xs v of Inl e \<Rightarrow> Inl e | Inr zs \<Rightarrow> Inr (Arr1 zs))
      | Arr2 n rows \<Rightarrow>
          if length v = n then Inr (Arr2 n (map (\<lambda>r. map2 f r v) rows))
          else if length v = 1 then Inr (Arr2 n (map (map (\<lambda>x. f x (hd v))) rows))
          else if n = 1 then Inr (Arr2 (length v) (map (\<lambda>r. map (f (hd r)) v) rows))
          else Inl ValueError)"

definition nd_map :: "(fl \<Rightarrow> fl) \<Rightarrow> ndarray \<Rightarrow> ndarray" where
  "nd_map f a = (case a of Arr1 xs \<Rightarrow> Arr1 (map f xs) | Arr2 n rows \<Rightarrow> Arr2 n (map (map f) rows))"

text \<open>
  \<^verbatim>\<open>np.sum\<close> of a one-dimensional array; the empty sum is \<open>0.0\<close>. The terms are added
  from left to right. NumPy adds the rows of a matrix in this order when it sums along
  axis 0, and a contiguous run of fewer than eight numbers as well; longer runs it adds
  in eight interleaved partial sums. The results below on sums hold for every order of
  the additions.
\<close>

definition np_sum :: "fl list \<Rightarrow> fl" where
  "np_sum xs = foldl fadd (Fin 0) xs"

text \<open>Column \<open>j\<close> of a two-dimensional array, \<^verbatim>\<open>a[:, j]\<close>.\<close>

definition column :: "fl list list \<Rightarrow> nat \<Rightarrow> fl list" where
  "column rows j = map (\<lambda>r. r ! j) rows"

text \<open>\<^verbatim>\<open>np.sum(a, axis=0)\<close> on shape \<open>(m, n)\<close>: the \<open>n\<close> column sums.\<close>

definition sum_axis0 :: "nat \<Rightarrow> fl list list \<Rightarrow> fl list" where
  "sum_axis0 n rows = map (\<lambda>j. np_sum (column rows j)) [0..<n]"

text \<open>
  \<^verbatim>\<open>np.sum(a, axis=1)\<close>: the row sums of a two-dimensional array; a one-dimensional
  array has no axis 1.
\<close>

definition sum_axis1 :: "ndarray \<Rightarrow> py_error + fl list" where
  "sum_axis1 a = (case a of Arr1 xs \<Rightarrow> Inl AxisError | Arr2 n rows \<Rightarrow> Inr (map np_sum rows))"

text \<open>\<^verbatim>\<open>.max()\<close> and \<^verbatim>\<open>.min()\<close> of a one-dimensional array; empty arrays raise.\<close>

fun np_max :: "fl list \<Rightarrow> py_error + fl" where
  "np_max [] = Inl ValueError"
| "np_max (x # xs) = Inr (foldl fmaximum x xs)"

fun np_min :: "fl list \<Rightarrow> py_error + fl" where
  "np_min [] = Inl ValueError"
| "np_min (x # xs) = Inr (foldl fminimum x xs)"

section \<open>The TOPSIS stages\<close>

text \<open>
  \<^verbatim>\<open>normalize_matrix\<close>: \<^verbatim>\<open>denominator = np.sqrt(np.sum(matrix**2, axis=0))\<close>, then
  \<^verbatim>\<open>matrix / denominator\<close>. On shape \<open>(m, n)\<close> the denominator has shape \<open>(n,)\<close> and the
  division pairs each row with it; on a one-dimensional array the sum along axis 0 is
  a scalar. There is no test for a zero denominator.
\<close>

definition normalize_matrix :: "ndarray \<Rightarrow> ndarray" where
  "normalize_matrix matrix =
     (case matrix of
        Arr1 xs \<Rightarrow>
          (let denominator = fsqrt (np_sum (map fsquare xs))
           in Arr1 (map (\<lambda>x. fdiv x denominator) xs))
      | Arr2 n rows \<Rightarrow>
          (let denominator = map fsqrt (sum_axis0 n (map (map fsquare) rows))
           in Arr2 n (map (\<lambda>r. map2 fdiv r denominator) rows)))"

text \<open>\<^verbatim>\<open>calculate_weighted_matrix\<close>: \<^verbatim>\<open>normalized_matrix * weights\<close>, with broadcasting.\<close>

definition calculate_weighted_matrix :: "ndarray \<Rightarrow> fl list \<Rightarrow> py_error + ndarray" where
  "calculate_weighted_matrix normalized_matrix weights = broadcast2 fmul normalized_matrix weights"

text \<open>
  The loop of \<^verbatim>\<open>find_ideal_solutions\<close> over the column indices still to visit, with the
  two result arrays as state. \<^verbatim>\<open>criteria_types[j]\<close> on a Python list raises
  \<open>IndexError\<close> past its end. Every type other than \<^verbatim>\<open>'benefit'\<close> takes the
  \<^verbatim>\<open>else\<close> branch.
\<close>

fun ideal_loop ::
  "fl list list \<Rightarrow> string list \<Rightarrow> nat list \<Rightarrow> fl list \<Rightarrow> fl list \<Rightarrow> py_error + (fl list \<times> fl list)" where
  "ideal_loop rows criteria_types [] A_plus A_minus = Inr (A_plus, A_minus)"
| "ideal_loop rows criteria_types (j # js) A_plus A_minus =
     (if length criteria_types \<le> j then Inl IndexError
      else (case np_max (column rows j) of
              Inl e \<Rightarrow> Inl e
            | Inr mx \<Rightarrow>
               (case np_min (column rows j) of
                  Inl e \<Rightarrow> Inl e
                | Inr mn \<Rightarrow>
                    if criteria_types ! j = ''benefit''
                    then ideal_loop rows criteria_types js (A_plus[j := mx]) (A_minus[j := mn])
                    else ideal_loop rows criteria_types js (A_plus[j := mn]) (A_minus[j := mx]))))"

text \<open>
  \<^verbatim>\<open>find_ideal_solutions\<close>: \<^verbatim>\<open>weighted_matrix.shape[1]\<close> raises \<open>IndexError\<close> on a
  one-dimensional array; otherwise both results start as \<^verbatim>\<open>np.zeros(n)\<close>.
\<close>

definition find_ideal_solutions :: "ndarray \<Rightarrow> string list \<Rightarrow> py_error + (fl list \<times> fl list)" where
  "find_ideal_solutions weighted_matrix criteria_types =
     (case weighted_matrix of
        Arr1 xs \<Rightarrow> Inl IndexError
      | Arr2 n rows \<Rightarrow>
          ideal_loop rows criteria_types [0..<n] (replicate n (Fin 0)) (replicate n (Fin 0)))"

text \<open>One line of \<^verbatim>\<open>calculate_distances\<close>: \<^verbatim>\<open>np.sqrt(np.sum((weighted_matrix - A)**2, axis=1))\<close>.\<close>

definition distance_to :: "ndarray \<Rightarrow> fl list \<Rightarrow> py_error + fl list" where
  "distance_to weighted_matrix A =
     (case broadcast2 fsub weighted_matrix A of
        Inl e \<Rightarrow> Inl e
      | Inr d \<Rightarrow>
          (case sum_axis1 (nd_map fsquare d) of
             Inl e \<Rightarrow> Inl e
           | Inr s \<Rightarrow> Inr (map fsqrt s)))"

definition calculate_distances ::
  "ndarray \<Rightarrow> fl list \<Rightarrow> fl list \<Rightarrow> py_error + (fl list \<times> fl list)" where
  "calculate_distances weighted_matrix A_plus A_minus =
     (case distance_to weighted_matrix A_plus of
        Inl e \<Rightarrow> Inl e
      | Inr D_plus \<Rightarrow>
          (case distance_to weighted_matrix A_minus of
             Inl e \<Rightarrow> Inl e
           | Inr D_minus \<Rightarrow> Inr (D_plus, D_minus)))"

text \<open>
  \<^verbatim>\<open>calculate_preference_values\<close>: \<^verbatim>\<open>V = D_minus / (D_plus + D_minus)\<close>, then
  \<^verbatim>\<open>np.nan_to_num(V, nan=0.0)\<close>.
\<close>

definition calculate_preference_values :: "fl list \<Rightarrow> fl list \<Rightarrow> py_error + real list" where
  "calculate_preference_values D_plus D_minus =
     (case broadcast1 fadd D_plus D_minus of
        Inl e \<Rightarrow> Inl e
      | Inr denom \<Rightarrow>
          (case broadcast1 fdiv D_minus denom of
             Inl e \<Rightarrow> Inl e
           | Inr V \<Rightarrow> Inr (map nan_to_num V)))"

record topsis_results =
  normalized_matrix :: ndarray
  weighted_matrix :: ndarray
  A_plus :: "fl list"
  A_minus :: "fl list"
  D_plus :: "fl list"
  D_minus :: "fl list"
  preference_values :: "real list"

text \<open>\<^verbatim>\<open>perform_topsis_calculation\<close>: the five stages in sequence; the first exception ends it.\<close>

definition perform_topsis_calculation ::
  "fl list list \<Rightarrow> fl list \<Rightarrow> string list \<Rightarrow> py_error + topsis_results" where
  "perform_topsis_calculation alternatives_data criteria_weights criteria_types =
     (case np_array alternatives_data of
        Inl e \<Rightarrow> Inl e
      | Inr matrix \<Rightarrow>
         (let normalized = normalize_matrix matrix
          in (case calculate_weighted_matrix normalized criteria_weights of
                Inl e \<Rightarrow> Inl e
              | Inr weighted \<Rightarrow>
                 (case find_ideal_solutions weighted criteria_types of
                    Inl e \<Rightarrow> Inl e
                  | Inr (Ap, Am) \<Rightarrow>
                     (case calculate_distances weighted Ap Am of
                        Inl e \<Rightarrow> Inl e
                      | Inr (Dp, Dm) \<Rightarrow>
                         (case calculate_preference_values Dp Dm of
                            Inl e \<Rightarrow> Inl e
                          | Inr V \<Rightarrow>
                              Inr \<lparr>normalized_matrix = normalized, weighted_matrix = weighted,
                                   A_plus = Ap, A_minus = Am, D_plus = Dp, D_minus = Dm,
                                   preference_values = V\<rparr>))))))"

section \<open>The ranking of the \<^verbatim>\<open>calculate\<close> route\<close>

text \<open>
  \<^verbatim>\<open>sorted(xs, key=k, reverse=True)\<close>: CPython reverses the list, sorts it stably in
  ascending key order, and reverses the result, so that elements with equal keys keep
  their original order. The keys here are the finite numbers that \<open>nan_to_num\<close>
  returns, which are totally ordered, so the stable sort is determined.
\<close>

definition py_sorted_reverse :: "('a \<Rightarrow> real) \<Rightarrow> 'a list \<Rightarrow> 'a list" where
  "py_sorted_reverse key xs = rev (sort_key key (rev xs))"

text \<open>One entry of the ranking; \<open>score\<close> is the entry's \<^verbatim>\<open>'value'\<close>.\<close>

record ranking_entry =
  rank :: nat
  alternative_index :: nat
  alternative_name :: string
  score :: real

text \<open>
  The list comprehension over \<^verbatim>\<open>enumerate(ranking)\<close>; \<^verbatim>\<open>alternative_names[rank[0]]\<close>
  raises \<open>IndexError\<close> past the end of the names.
\<close>

fun ranking_entries :: "string list \<Rightarrow> (nat \<times> (nat \<times> real)) list \<Rightarrow> py_error + ranking_entry list" where
  "ranking_entries names [] = Inr []"
| "ranking_entries names ((i, rk) # rest) =
     (if fst rk < length names
      then (case ranking_entries names rest of
              Inl e \<Rightarrow> Inl e
            | Inr es \<Rightarrow>
                Inr (\<lparr>rank = i + 1, alternative_index = fst rk,
                      alternative_name = names ! fst rk, score = snd rk\<rparr> # es))
      else Inl IndexError)"

definition create_ranking :: "string list \<Rightarrow> real list \<Rightarrow> py_error + ranking_entry list" where
  "create_ranking names pvalues =
     ranking_entries names (enumerate 0 (py_sorted_reverse snd (enumerate 0 pvalues)))"

text \<open>The stored project that the route reads.\<close>

record criterion =
  crit_id :: int
  crit_name :: string
  criterion_type :: string
  weight :: fl

record alternative_criterion_value =
  criterion_id :: int
  val :: fl

record alternative =
  alt_name :: string
  alt_values :: "alternative_criterion_value list"

record project =
  criteria :: "criterion list"
  alternatives :: "alternative list"

text \<open>\<^verbatim>\<open>next((v.value for v in alt.values if v.criterion_id == crit.id), 0)\<close>\<close>

definition lookup_value :: "alternative \<Rightarrow> criterion \<Rightarrow> fl" where
  "lookup_value alt crit =
     (case find (\<lambda>v. criterion_id v = crit_id crit) (alt_values alt) of
        Some v \<Rightarrow> val v
      | None \<Rightarrow> Fin 0)"

record calculate_results =
  results :: topsis_results
  alternative_names :: "string list"
  criteria_names :: "string list"
  ranking :: "ranking_entry list"

datatype response = Http404 | Http400 | Http200 calculate_results

text \<open>
  \<^verbatim>\<open>calculate_topsis\<close>, after authentication, on the outcome of the project query. An
  exception of the engine leaves the route as an exception.
\<close>

definition calculate_topsis :: "project option \<Rightarrow> py_error + response" where
  "calculate_topsis found =
     (case found of
        None \<Rightarrow> Inr Http404
      | Some p \<Rightarrow>
          if criteria p = [] \<or> alternatives p = [] then Inr Http400
          else
            (let criteria_weights = map weight (criteria p);
                 criteria_types = map criterion_type (criteria p);
                 names = map alt_name (alternatives p);
                 alternatives_data = map (\<lambda>alt. map (lookup_value alt) (criteria p)) (alternatives p)
             in (case perform_topsis_calculation alternatives_data criteria_weights criteria_types of
                   Inl e \<Rightarrow> Inl e
                 | Inr res \<Rightarrow>
                    (case create_ranking names (preference_values res) of
                       Inl e \<Rightarrow> Inl e
                     | Inr rk \<Rightarrow>
                         Inr (Http200 \<lparr>results = res, alternative_names = names,
                                       criteria_names = map crit_name (criteria p),
                                       ranking = rk\<rparr>)))))"

section \<open>Valid inputs and the formulas of the method\<close>

text \<open>
  A valid input: at least one alternative and one criterion, a rectangular matrix,
  one weight and one type per criterion, every type \<^verbatim>\<open>'benefit'\<close> or \<^verbatim>\<open>'cost'\<close>.
\<close>

definition valid_input :: "fl list list \<Rightarrow> fl list \<Rightarrow> string list \<Rightarrow> bool" where
  "valid_input data weights types =
     (data \<noteq> [] \<and> 1 \<le> length (hd data)
      \<and> list_all (\<lambda>r. length r = length (hd data)) data
      \<and> length weights = length (hd data)
      \<and> length types = length (hd data)
      \<and> list_all (\<lambda>t. t = ''benefit'' \<or> t = ''cost'') types)"

section \<open>Auxiliary notions for the proofs\<close>

text \<open>
  The reals that are binary64 numbers: multiples of the spacing at their own exponent,
  below \<open>2\<^sup>1\<^sup>0\<^sup>2\<^sup>4\<close> in magnitude.
\<close>

definition is_double :: "real \<Rightarrow> bool" where
  "is_double x = (x / ulp x \<in> \<int> \<and> \<bar>x\<bar> < pow2 1024)"

text \<open>
  The matrix with entry \<open>f i j\<close> in row \<open>i\<close> and column \<open>j\<close>; every rectangular list of
  rows is of this form, which lets each stage be described entry by entry.
\<close>

definition dist_value :: "fl \<Rightarrow> bool" where
  "dist_value d = (case d of Fin y \<Rightarrow> 0 \<le> y \<and> is_double y | PInf \<Rightarrow> True | _ \<Rightarrow> False)"

definition mk_matrix :: "nat \<Rightarrow> nat \<Rightarrow> (nat \<Rightarrow> nat \<Rightarrow> 'a) \<Rightarrow> 'a list list" where
  "mk_matrix m n f = map (\<lambda>i. map (f i) [0..<n]) [0..<m]"

text \<open>
  The denominator of column \<open>j\<close> in the normalizer, and the entries, ideal values,
  distances and scores that the stages compute from it, each written as a function of
  the input and of the indices. The lemma \<open>perform_explicit\<close> below shows that these are
  the values the calculation returns.
\<close>

definition norm_den :: "nat \<Rightarrow> (nat \<Rightarrow> nat \<Rightarrow> fl) \<Rightarrow> nat \<Rightarrow> fl" where
  "norm_den m f j = fsqrt (np_sum (map (\<lambda>i. fsquare (f i j)) [0..<m]))"

text \<open>The reductions of \<open>np_max\<close> and \<open>np_min\<close> on a nonempty column.\<close>

definition col_max :: "fl list \<Rightarrow> fl" where
  "col_max xs = foldl fmaximum (hd xs) (tl xs)"

definition col_min :: "fl list \<Rightarrow> fl" where
  "col_min xs = foldl fminimum (hd xs) (tl xs)"

text \<open>
  Entry \<open>j\<close> of the positive (\<open>positive = True\<close>) or negative ideal point: the column
  maximum when the flag agrees with the type being \<^verbatim>\<open>'benefit'\<close>, the minimum otherwise.
\<close>

definition ideal_at :: "bool \<Rightarrow> fl list list \<Rightarrow> string list \<Rightarrow> nat \<Rightarrow> fl" where
  "ideal_at positive rows types j =
     (if (types ! j = ''benefit'') = positive then col_max (column rows j) else col_min (column rows j))"

definition dist_at :: "nat \<Rightarrow> (nat \<Rightarrow> fl) \<Rightarrow> (nat \<Rightarrow> fl) \<Rightarrow> fl" where
  "dist_at n row a = fsqrt (np_sum (map (\<lambda>j. fsquare (fsub (row j) (a j))) [0..<n]))"

definition pref_at :: "fl \<Rightarrow> fl \<Rightarrow> real" where
  "pref_at dp dm = nan_to_num (fdiv dm (fadd dp dm))"

definition norm_entry :: "fl list list \<Rightarrow> nat \<Rightarrow> nat \<Rightarrow> fl" where
  "norm_entry data i j = fdiv (data ! i ! j) (norm_den (length data) (\<lambda>i j. data ! i ! j) j)"

definition weighted_entry :: "fl list list \<Rightarrow> fl list \<Rightarrow> nat \<Rightarrow> nat \<Rightarrow> fl" where
  "weighted_entry data w i j = fmul (norm_entry data i j) (w ! j)"

definition weighted_rows :: "nat \<Rightarrow> fl list list \<Rightarrow> fl list \<Rightarrow> fl list list" where
  "weighted_rows n data w = mk_matrix (length data) n (weighted_entry data w)"

definition dist_entry :: "bool \<Rightarrow> nat \<Rightarrow> fl list list \<Rightarrow> fl list \<Rightarrow> string list \<Rightarrow> nat \<Rightarrow> fl" where
  "dist_entry positive n data w t i =
     dist_at n (weighted_entry data w i) (ideal_at positive (weighted_rows n data w) t)"

definition pref_entry :: "nat \<Rightarrow> fl list list \<Rightarrow> fl list \<Rightarrow> string list \<Rightarrow> nat \<Rightarrow> real" where
  "pref_entry n data w t i = pref_at (dist_entry True n data w t i) (dist_entry False n data w t i)"

text \<open>
  The shape conditions of the calculation: every row has the length of the first one;
  \<open>k\<close> weights can be broadcast against \<open>n\<close> columns when \<open>k = n\<close> or one of the two is 1;
  the weighted matrix then has \<open>n\<close> columns, or \<open>k\<close> when \<open>n = 1\<close>.
\<close>

definition rectangular :: "fl list list \<Rightarrow> bool" where
  "rectangular data = list_all (\<lambda>r. length r = length (hd data)) data"

definition broadcast_ok :: "nat \<Rightarrow> nat \<Rightarrow> bool" where
  "broadcast_ok n k = (k = n \<or> k = 1 \<or> n = 1)"

definition broadcast_len :: "nat \<Rightarrow> nat \<Rightarrow> nat" where
  "broadcast_len n k = (if n = 1 then k else n)"

text \<open>
  The order of the ranking: a higher score comes first, and among equal scores the lower
  original index.
\<close>

definition ranks_before :: "nat \<times> real \<Rightarrow> nat \<times> real \<Rightarrow> bool" where
  "ranks_before e1 e2 = (snd e2 < snd e1 \<or> (snd e1 = snd e2 \<and> fst e1 < fst e2))"

section \<open>Rounding to the nearest binary64 number\<close>

lemma pow2_pos [simp]: "0 < pow2 e" by (simp add: pow2_def)
lemma pow2_nonneg [simp]: "0 \<le> pow2 e" by (simp add: pow2_def)
lemma pow2_not_le_0 [simp]: "\<not> pow2 e \<le> 0" using pow2_pos[of e] by linarith
lemma pow2_ne0 [simp]: "pow2 e \<noteq> 0" using pow2_pos[of e] by linarith
lemma pow2_add: "pow2 (a + b) = pow2 a * pow2 b" by (simp add: pow2_def powr_add)
lemma pow2_diff: "pow2 (a - b) = pow2 a / pow2 b" by (simp add: pow2_def powr_diff)
lemma pow2_0 [simp]: "pow2 0 = 1" by (simp add: pow2_def)
lemma pow2_le [simp]: "pow2 a \<le> pow2 b \<longleftrightarrow> a \<le> b" by (simp add: pow2_def)
lemma pow2_less [simp]: "pow2 a < pow2 b \<longleftrightarrow> a < b" by (simp add: pow2_def)
lemma pow2_nat: "pow2 (int n) = 2 ^ n" by (simp add: pow2_def powr_realpow)
lemma pow2_neg_nat: "pow2 (- int n) = 1 / 2 ^ n"
  by (simp add: pow2_def powr_minus_divide powr_realpow)
lemma pow2_int: "0 \<le> e \<Longrightarrow> pow2 e = of_int (2 ^ nat e)"
  using pow2_nat[of "nat e"] by simp

lemma rne_of_int [simp]: "rne (of_int k) = k" by (simp add: rne_def)

lemma rne_lower: "\<lfloor>t\<rfloor> \<le> rne t" by (simp add: rne_def Let_def)
lemma rne_upper: "rne t \<le> \<lfloor>t\<rfloor> + 1" by (simp add: rne_def Let_def)

lemma rne_0 [simp]: "rne 0 = 0" using rne_of_int[of 0] by simp

lemma rne_ge_int: "of_int k \<le> t \<Longrightarrow> k \<le> rne t"
proof -
  assume "of_int k \<le> t"
  then have "k \<le> \<lfloor>t\<rfloor>" by (simp add: le_floor_iff)
  then show ?thesis using rne_lower[of t] by linarith
qed

lemma rne_le_int: "t \<le> of_int k \<Longrightarrow> rne t \<le> k"
proof (cases "t = of_int k")
  case True then show ?thesis by simp
next
  case False
  assume "t \<le> of_int k"
  then have "t < of_int k" using False by simp
  then have "\<lfloor>t\<rfloor> < k" by (simp add: floor_less_iff)
  then show ?thesis using rne_upper[of t] by linarith
qed

lemma rne_mono: "s \<le> t \<Longrightarrow> rne s \<le> rne t"
proof -
  assume st: "s \<le> t"
  then have fl: "\<lfloor>s\<rfloor> \<le> \<lfloor>t\<rfloor>" by (rule floor_mono)
  show ?thesis
  proof (cases "\<lfloor>s\<rfloor> = \<lfloor>t\<rfloor>")
    case True
    then show ?thesis using st by (auto simp: rne_def Let_def)
  next
    case False
    then have "\<lfloor>s\<rfloor> + 1 \<le> \<lfloor>t\<rfloor>" using fl by linarith
    then show ?thesis using rne_upper[of s] rne_lower[of t] by linarith
  qed
qed

lemma rne_neg: "rne (- t) = - rne t"
proof (cases "t = of_int \<lfloor>t\<rfloor>")
  case True
  then have "rne (- of_int \<lfloor>t\<rfloor>) = - rne (of_int \<lfloor>t\<rfloor>)"
    by (metis of_int_minus rne_of_int)
  then show ?thesis using True by simp
next
  case False
  have ni: "t \<notin> \<int>"
  proof
    assume "t \<in> \<int>"
    then obtain z where "t = of_int z" by (rule Ints_cases)
    then have "t = of_int \<lfloor>t\<rfloor>" by simp
    with False show False by simp
  qed
  have fn: "\<lfloor>- t\<rfloor> = - \<lfloor>t\<rfloor> - 1" using False by (simp add: floor_minus ceiling_altdef)
  have d: "- t - of_int \<lfloor>- t\<rfloor> = 1 - (t - of_int \<lfloor>t\<rfloor>)" by (simp add: fn)
  have ev: "even (- \<lfloor>t\<rfloor> - 1) \<longleftrightarrow> odd \<lfloor>t\<rfloor>" by simp
  show ?thesis
    unfolding rne_def Let_def d unfolding fn ev
    by (auto simp: field_simps)
qed

lemma rne_small: "\<bar>t\<bar> < 1 / 2 \<Longrightarrow> rne t = 0"
proof -
  assume h: "\<bar>t\<bar> < 1 / 2"
  have pos: "rne s = 0" if "0 \<le> s" "s < 1 / 2" for s
  proof -
    have "\<lfloor>s\<rfloor> = 0" using that by (simp add: floor_eq_iff)
    then show ?thesis using that by (simp add: rne_def)
  qed
  show ?thesis
  proof (cases "0 \<le> t")
    case True
    then show ?thesis using h by (intro pos) simp_all
  next
    case False
    then have "rne (- t) = 0" using h by (intro pos) simp_all
    then show ?thesis by (simp add: rne_neg)
  qed
qed

lemma rne_nonneg: "0 \<le> t \<Longrightarrow> 0 \<le> rne t"
  using rne_ge_int[of 0 t] by simp

lemma expo_ge: "- 1022 \<le> expo x" by (simp add: expo_def)

lemma expo_neg [simp]: "expo (- x) = expo x" by (simp add: expo_def)

lemma abs_less_pow2_expo:
  assumes "x \<noteq> 0"
  shows "\<bar>x\<bar> < pow2 (expo x + 1)"
proof -
  have pos: "0 < \<bar>x\<bar>" using assms by simp
  have "\<lfloor>log 2 \<bar>x\<bar>\<rfloor> = \<lfloor>log 2 \<bar>x\<bar>\<rfloor>" ..
  then have "\<bar>x\<bar> < 2 powr (real_of_int (\<lfloor>log 2 \<bar>x\<bar>\<rfloor> + 1))"
    using floor_log_eq_powr_iff[OF pos, of 2 "\<lfloor>log 2 \<bar>x\<bar>\<rfloor>"] by simp
  also have "\<dots> \<le> pow2 (expo x + 1)"
    unfolding pow2_def expo_def using assms by (intro powr_mono) simp_all
  finally show ?thesis .
qed

lemma pow2_expo_le:
  assumes "x \<noteq> 0" "- 1022 < expo x"
  shows "pow2 (expo x) \<le> \<bar>x\<bar>"
proof -
  have pos: "0 < \<bar>x\<bar>" using assms by simp
  have e: "expo x = \<lfloor>log 2 \<bar>x\<bar>\<rfloor>" using assms by (simp add: expo_def max_def split: if_splits)
  show ?thesis
    using floor_log_eq_powr_iff[OF pos, of 2 "\<lfloor>log 2 \<bar>x\<bar>\<rfloor>"] unfolding pow2_def e by simp
qed

lemma expo_eqI:
  assumes "pow2 e \<le> \<bar>x\<bar>" "\<bar>x\<bar> < pow2 (e + 1)" "- 1022 \<le> e"
  shows "expo x = e"
proof -
  have pos: "0 < \<bar>x\<bar>" using assms(1) pow2_pos[of e] by linarith
  have "\<lfloor>log 2 \<bar>x\<bar>\<rfloor> = e"
    using floor_log_eq_powr_iff[OF pos, of 2 e] assms(1,2) unfolding pow2_def by simp
  then show ?thesis using assms(3) pos by (simp add: expo_def)
qed

lemma expo_small:
  assumes "\<bar>x\<bar> < pow2 (- 1021)"
  shows "expo x = - 1022"
proof (cases "x = 0")
  case True
  then show ?thesis by (simp add: expo_def)
next
  case False
  then have pos: "0 < \<bar>x\<bar>" by simp
  have "\<lfloor>log 2 \<bar>x\<bar>\<rfloor> \<le> - 1022"
  proof (rule ccontr)
    assume "\<not> \<lfloor>log 2 \<bar>x\<bar>\<rfloor> \<le> - 1022"
    then have "- 1021 \<le> \<lfloor>log 2 \<bar>x\<bar>\<rfloor>" by simp
    then have "pow2 (- 1021) \<le> pow2 \<lfloor>log 2 \<bar>x\<bar>\<rfloor>" by simp
    also have "\<dots> \<le> \<bar>x\<bar>"
      using floor_log_eq_powr_iff[OF pos, of 2 "\<lfloor>log 2 \<bar>x\<bar>\<rfloor>"] unfolding pow2_def by simp
    finally show False using assms by simp
  qed
  then show ?thesis using False by (simp add: expo_def)
qed

lemma expo_mono:
  assumes "\<bar>x\<bar> \<le> \<bar>y\<bar>"
  shows "expo x \<le> expo y"
proof (cases "x = 0")
  case True
  then show ?thesis by (simp add: expo_def)
next
  case False
  then have "0 < \<bar>x\<bar>" "0 < \<bar>y\<bar>" using assms by simp_all
  then have "log 2 \<bar>x\<bar> \<le> log 2 \<bar>y\<bar>" using assms(1) by simp
  then have "\<lfloor>log 2 \<bar>x\<bar>\<rfloor> \<le> \<lfloor>log 2 \<bar>y\<bar>\<rfloor>" by (rule floor_mono)
  then show ?thesis using False assms by (auto simp: expo_def)
qed

lemma ulp_pos [simp]: "0 < ulp x" by (simp add: ulp_def)
lemma ulp_nonneg [simp]: "0 \<le> ulp x" by (simp add: ulp_def)
lemma ulp_ne0 [simp]: "ulp x \<noteq> 0" using ulp_pos[of x] by linarith
lemma ulp_neg [simp]: "ulp (- x) = ulp x" by (simp add: ulp_def)

lemma round_real_0 [simp]: "round_real 0 = 0" by (simp add: round_real_def)

lemma round_real_neg: "round_real (- x) = - round_real x"
  by (simp add: round_real_def rne_neg)

lemma round_real_nonneg: "0 \<le> x \<Longrightarrow> 0 \<le> round_real x"
  unfolding round_real_def by (intro mult_nonneg_nonneg) (simp_all add: rne_nonneg)

lemma round_real_upper:
  assumes "0 < x"
  shows "round_real x \<le> pow2 (expo x + 1)"
proof -
  have "x / ulp x < pow2 (expo x + 1) / pow2 (expo x - 52)"
    using abs_less_pow2_expo[of x] assms unfolding ulp_def by (simp add: divide_strict_right_mono)
  also have "\<dots> = pow2 53" by (simp flip: pow2_diff)
  also have "\<dots> = of_int (2 ^ 53)" by (simp add: pow2_int)
  finally have "rne (x / ulp x) \<le> 2 ^ 53" by (intro rne_le_int) simp
  then have "of_int (rne (x / ulp x)) * ulp x \<le> of_int (2 ^ 53) * ulp x"
    by (intro mult_right_mono) simp_all
  also have "\<dots> = pow2 53 * pow2 (expo x - 52)" by (simp add: pow2_int ulp_def)
  also have "\<dots> = pow2 (53 + (expo x - 52))" by (simp only: pow2_add)
  also have "\<dots> = pow2 (expo x + 1)" by (rule arg_cong[of _ _ pow2]) simp
  finally show ?thesis by (simp add: round_real_def)
qed

lemma round_real_lower:
  assumes "0 < x" "- 1022 < expo x"
  shows "pow2 (expo x) \<le> round_real x"
proof -
  have "pow2 (expo x) / pow2 (expo x - 52) \<le> x / ulp x"
    using pow2_expo_le[of x] assms unfolding ulp_def by (simp add: divide_right_mono)
  moreover have "pow2 (expo x) / pow2 (expo x - 52) = pow2 52" by (simp flip: pow2_diff)
  moreover have "pow2 52 = of_int (2 ^ 52)" by (simp add: pow2_int)
  ultimately have n: "2 ^ 52 \<le> rne (x / ulp x)" by (intro rne_ge_int) simp
  have "pow2 (expo x) = pow2 (52 + (expo x - 52))" by (rule arg_cong[of _ _ pow2]) simp
  also have "\<dots> = pow2 52 * pow2 (expo x - 52)" by (simp only: pow2_add)
  also have "\<dots> = of_int (2 ^ 52) * ulp x" by (simp add: pow2_int ulp_def)
  also have "\<dots> \<le> of_int (rne (x / ulp x)) * ulp x"
    using n by (intro mult_right_mono) simp_all
  finally show ?thesis by (simp add: round_real_def)
qed

lemma round_real_mono_pos:
  assumes "0 < x" "x \<le> y"
  shows "round_real x \<le> round_real y"
proof -
  have y: "0 < y" using assms by linarith
  have le: "expo x \<le> expo y" using assms by (intro expo_mono) simp_all
  show ?thesis
  proof (cases "expo x = expo y")
    case True
    then have u: "ulp y = ulp x" by (simp add: ulp_def)
    have "x / ulp x \<le> y / ulp x" using assms(2) by (simp add: divide_right_mono)
    then have "rne (x / ulp x) \<le> rne (y / ulp x)" by (rule rne_mono)
    then show ?thesis unfolding round_real_def u by (intro mult_right_mono) simp_all
  next
    case False
    then have lt: "expo x + 1 \<le> expo y" using le by linarith
    then have "- 1022 < expo y" using expo_ge[of x] by linarith
    then have "pow2 (expo y) \<le> round_real y" using y by (intro round_real_lower)
    moreover have "round_real x \<le> pow2 (expo x + 1)" using assms(1) by (rule round_real_upper)
    moreover have "pow2 (expo x + 1) \<le> pow2 (expo y)" using lt by simp
    ultimately show ?thesis by linarith
  qed
qed

lemma round_real_mono: "x \<le> y \<Longrightarrow> round_real x \<le> round_real y"
proof -
  assume xy: "x \<le> y"
  consider "0 < x" | "x \<le> 0" "0 \<le> y" | "y < 0" by linarith
  then show ?thesis
  proof cases
    case 1
    then show ?thesis using xy by (rule round_real_mono_pos)
  next
    case 2
    have "round_real x \<le> 0" using round_real_nonneg[of "- x"] 2(1) by (simp add: round_real_neg)
    moreover have "0 \<le> round_real y" using 2(2) by (rule round_real_nonneg)
    ultimately show ?thesis by linarith
  next
    case 3
    then have "round_real (- y) \<le> round_real (- x)" using xy by (intro round_real_mono_pos) simp_all
    then show ?thesis by (simp add: round_real_neg)
  qed
qed

lemma round_real_exact: "x / ulp x \<in> \<int> \<Longrightarrow> round_real x = x"
proof -
  assume "x / ulp x \<in> \<int>"
  then obtain z where z: "x / ulp x = of_int z" by (rule Ints_cases)
  then have "of_int z * ulp x = x" by (simp add: field_simps)
  then show ?thesis by (simp add: round_real_def z)
qed

lemma round64_0 [simp]: "round64 0 = Fin 0"
  by (simp add: round64_def)

lemma round64_not_NaN [simp]: "round64 x \<noteq> NaN" "NaN \<noteq> round64 x"
  by (auto simp: round64_def Let_def)

lemma round_real_pos_sign: "round_real x < 0 \<Longrightarrow> x < 0"
  using round_real_nonneg[of x] by linarith

lemma round_real_neg_sign: "0 < round_real x \<Longrightarrow> 0 < x"
proof (rule ccontr)
  assume r: "0 < round_real x" and "\<not> 0 < x"
  then have "0 \<le> - x" by simp
  then have "0 \<le> round_real (- x)" by (rule round_real_nonneg)
  then show False using r by (simp add: round_real_neg)
qed

lemma fle_NInf: "z \<noteq> NaN \<Longrightarrow> fle NInf z"
  by (cases z) simp_all

lemma fle_PInf: "z \<noteq> NaN \<Longrightarrow> fle z PInf"
  by (cases z) simp_all

lemma round64_PInf: "pow2 1024 \<le> round_real x \<Longrightarrow> round64 x = PInf"
proof -
  assume h: "pow2 1024 \<le> round_real x"
  have "0 < pow2 1024" by (rule pow2_pos)
  then have "0 < round_real x" using h by linarith
  then have "0 < x" by (rule round_real_neg_sign)
  moreover have "pow2 1024 \<le> \<bar>round_real x\<bar>" using h by linarith
  ultimately show ?thesis unfolding round64_def Let_def by simp
qed

lemma round64_NInf: "round_real x \<le> - pow2 1024 \<Longrightarrow> round64 x = NInf"
proof -
  assume h: "round_real x \<le> - pow2 1024"
  have "0 < pow2 1024" by (rule pow2_pos)
  then have "round_real x < 0" using h by linarith
  then have "x < 0" by (rule round_real_pos_sign)
  then have "\<not> 0 < x" by linarith
  moreover have "pow2 1024 \<le> \<bar>round_real x\<bar>" using h by linarith
  ultimately show ?thesis unfolding round64_def Let_def by simp
qed

lemma round64_Fin:
  "- pow2 1024 < round_real x \<Longrightarrow> round_real x < pow2 1024 \<Longrightarrow> round64 x = Fin (round_real x)"
proof -
  assume "- pow2 1024 < round_real x" "round_real x < pow2 1024"
  then have "\<not> pow2 1024 \<le> \<bar>round_real x\<bar>" by linarith
  then show ?thesis unfolding round64_def Let_def by simp
qed

lemma round64_mono:
  assumes "x \<le> y"
  shows "fle (round64 x) (round64 y)"
proof -
  have m: "round_real x \<le> round_real y" using assms by (rule round_real_mono)
  consider (a) "round_real x \<le> - pow2 1024" | (b) "pow2 1024 \<le> round_real y"
    | (c) "- pow2 1024 < round_real x" "round_real y < pow2 1024"
    by linarith
  then show ?thesis
  proof cases
    case a
    then have "round64 x = NInf" by (rule round64_NInf)
    then show ?thesis by (simp add: fle_NInf)
  next
    case b
    then have "round64 y = PInf" by (rule round64_PInf)
    then show ?thesis by (simp add: fle_PInf)
  next
    case c
    then have "round64 x = Fin (round_real x)" "round64 y = Fin (round_real y)"
      using m by (intro round64_Fin; linarith)+
    then show ?thesis using m by simp
  qed
qed

lemma round64_nonneg: "0 \<le> x \<Longrightarrow> fle (Fin 0) (round64 x)"
  using round64_mono[of 0 x] by simp

lemma round64_nonpos: "x \<le> 0 \<Longrightarrow> fle (round64 x) (Fin 0)"
  using round64_mono[of x 0] by simp

lemma round64_neg:
  "round64 (- x) =
     (case round64 x of Fin y \<Rightarrow> Fin (- y) | PInf \<Rightarrow> NInf | NInf \<Rightarrow> PInf | NaN \<Rightarrow> NaN)"
proof (cases "pow2 1024 \<le> \<bar>round_real x\<bar>")
  case True
  have P: "0 < pow2 1024" by simp
  have "x \<noteq> 0" using True P by auto
  then show ?thesis using True by (auto simp: round64_def round_real_neg)
next
  case False
  then show ?thesis by (simp add: round64_def round_real_neg)
qed

lemma round64_exact: "is_double x \<Longrightarrow> round64 x = Fin x"
  by (simp add: is_double_def round64_def round_real_exact)

lemma is_double_0 [simp]: "is_double 0" by (simp add: is_double_def)

lemma round_real_is_float: "round_real x / ulp (round_real x) \<in> \<int>"
proof -
  have pos: "round_real x / ulp (round_real x) \<in> \<int>" if x: "0 < x" for x
  proof -
    let ?y = "round_real x" and ?e = "expo x"
    have y0: "0 \<le> ?y" using x by (intro round_real_nonneg) simp
    have yu: "?y \<le> pow2 (?e + 1)" using x by (rule round_real_upper)
    consider "?y = 0" | "?y = pow2 (?e + 1)" | "0 < ?y" "?y < pow2 (?e + 1)"
      using y0 yu by linarith
    then show ?thesis
    proof cases
      case 1
      then show ?thesis by simp
    next
      case 2
      have "expo ?y = ?e + 1"
        unfolding 2 using expo_ge[of x] by (intro expo_eqI) simp_all
      then have "?y / ulp ?y = pow2 (?e + 1) / pow2 (?e + 1 - 52)" by (simp add: ulp_def 2)
      also have "\<dots> = pow2 ((?e + 1) - (?e + 1 - 52))" by (simp only: pow2_diff)
      also have "\<dots> = pow2 52" by (rule arg_cong[of _ _ pow2]) simp
      also have "\<dots> = of_int (2 ^ 52)" by (simp add: pow2_int)
      finally show ?thesis by (metis Ints_of_int)
    next
      case 3
      have "expo ?y = ?e"
      proof (cases "- 1022 < ?e")
        case True
        then have "pow2 ?e \<le> ?y" using x by (intro round_real_lower)
        then show ?thesis using 3 expo_ge[of x] by (intro expo_eqI) simp_all
      next
        case False
        then have e: "?e = - 1022" using expo_ge[of x] by linarith
        then have "\<bar>?y\<bar> < pow2 (- 1021)" using 3 by simp
        then show ?thesis unfolding e by (rule expo_small)
      qed
      then have "ulp ?y = ulp x" by (simp add: ulp_def)
      then have "?y / ulp ?y = of_int (rne (x / ulp x))" by (simp add: round_real_def)
      then show ?thesis by (metis Ints_of_int)
    qed
  qed
  consider "0 < x" | "x = 0" | "x < 0" by linarith
  then show ?thesis
  proof cases
    case 1
    then show ?thesis by (rule pos)
  next
    case 2
    then show ?thesis by simp
  next
    case 3
    then have "round_real (- x) / ulp (round_real (- x)) \<in> \<int>" by (intro pos) simp
    then have "- (round_real x / ulp (round_real x)) \<in> \<int>" by (simp add: round_real_neg)
    then show ?thesis by (metis Ints_minus minus_minus)
  qed
qed

lemma round64_is_double: "round64 x = Fin y \<Longrightarrow> is_double y"
  using round_real_is_float[of x]
  by (auto simp: round64_def Let_def is_double_def split: if_splits)

lemma round64_idem: "round64 x = Fin y \<Longrightarrow> round64 y = Fin y"
  by (intro round64_exact round64_is_double)

lemma is_double_scaled:
  assumes "\<bar>k\<bar> < 2 ^ 53" "- 1074 \<le> e" "\<bar>of_int k * pow2 e\<bar> < pow2 1024"
  shows "is_double (of_int k * pow2 e)"
proof (cases "k = 0")
  case True
  then show ?thesis by simp
next
  case False
  let ?x = "of_int k * pow2 e"
  have x0: "?x \<noteq> 0" using False by simp
  have le: "expo ?x - 52 \<le> e"
  proof (rule ccontr)
    assume "\<not> expo ?x - 52 \<le> e"
    then have g: "e + 53 \<le> expo ?x" by linarith
    then have "- 1022 < expo ?x" using assms(2) by linarith
    then have "pow2 (expo ?x) \<le> \<bar>?x\<bar>" using x0 by (intro pow2_expo_le)
    moreover have "pow2 (e + 53) \<le> pow2 (expo ?x)" using g by simp
    moreover have "\<bar>?x\<bar> < of_int (2 ^ 53) * pow2 e"
    proof -
      have "\<bar>?x\<bar> = of_int \<bar>k\<bar> * pow2 e" by (simp add: abs_mult)
      also have "\<dots> < of_int (2 ^ 53) * pow2 e"
        using assms(1) by (intro mult_strict_right_mono) simp_all
      finally show ?thesis .
    qed
    moreover have "of_int (2 ^ 53) * pow2 e = pow2 (e + 53)"
      by (simp add: pow2_add pow2_int)
    ultimately show False by linarith
  qed
  define d where "d = e - (expo ?x - 52)"
  have d0: "0 \<le> d" using le by (simp add: d_def)
  have "?x / ulp ?x = of_int k * (pow2 e / pow2 (expo ?x - 52))" by (simp add: ulp_def)
  also have "pow2 e / pow2 (expo ?x - 52) = pow2 d" by (simp only: d_def pow2_diff)
  also have "pow2 d = of_int (2 ^ nat d)" using d0 by (rule pow2_int)
  finally have "?x / ulp ?x = of_int (k * 2 ^ nat d)" by simp
  then have "?x / ulp ?x \<in> \<int>" by (metis Ints_of_int)
  then show ?thesis using assms(3) by (simp add: is_double_def)
qed

lemma is_double_of_int: "\<bar>k\<bar> < 2 ^ 53 \<Longrightarrow> is_double (of_int k)"
proof -
  assume k: "\<bar>k\<bar> < 2 ^ 53"
  have "\<bar>real_of_int k\<bar> = of_int \<bar>k\<bar>" by simp
  also have "\<dots> < of_int (2 ^ 53)" using k by (simp only: of_int_less_iff)
  also have "\<dots> = pow2 53" by (simp add: pow2_int)
  also have "\<dots> < pow2 1024" by simp
  finally have "\<bar>of_int k * pow2 0\<bar> < pow2 1024" by simp
  then have "is_double (of_int k * pow2 0)" using k by (intro is_double_scaled) simp_all
  then show ?thesis by simp
qed

lemma round64_overflow:
  assumes "pow2 1024 \<le> x"
  shows "round64 x = PInf"
proof -
  have P: "0 < pow2 1024" by simp
  have x: "0 < x" using assms P by linarith
  have "expo (pow2 1024) = 1024" by (rule expo_eqI) simp_all
  moreover have "expo (pow2 1024) \<le> expo x" using assms P by (intro expo_mono) simp
  ultimately have e: "1024 \<le> expo x" by simp
  then have "pow2 1024 \<le> pow2 (expo x)" by simp
  also have "\<dots> \<le> round_real x" using x e by (intro round_real_lower) simp_all
  finally have "pow2 1024 \<le> \<bar>round_real x\<bar>" by simp
  then show ?thesis using x by (simp add: round64_def)
qed

lemma round64_underflow:
  assumes "\<bar>x\<bar> < pow2 (- 1075)"
  shows "round64 x = Fin 0"
proof -
  have "\<bar>x\<bar> < pow2 (- 1021)" using assms pow2_less[of "- 1075" "- 1021"] by linarith
  then have e: "expo x = - 1022" by (rule expo_small)
  then have u: "ulp x = pow2 (- 1074)" by (simp add: ulp_def)
  have "\<bar>x / pow2 (- 1074)\<bar> < pow2 (- 1075) / pow2 (- 1074)"
    using assms by (simp add: divide_strict_right_mono)
  also have "pow2 (- 1075) / pow2 (- 1074) = pow2 ((- 1075) - (- 1074))" by (simp only: pow2_diff)
  also have "\<dots> = 1 / 2" using pow2_neg_nat[of 1] by simp
  finally have h: "\<bar>x / ulp x\<bar> < 1 / 2" unfolding u .
  have "rne (x / ulp x) = 0" using h by (rule rne_small)
  then show ?thesis by (simp add: round64_def round_real_def)
qed

lemma round64_of_int: "\<bar>k\<bar> < 2 ^ 53 \<Longrightarrow> round64 (of_int k) = Fin (of_int k)"
  by (intro round64_exact is_double_of_int)

lemma round64_1 [simp]: "round64 1 = Fin 1"
  using round64_of_int[of 1] by simp

lemma round64_Fin_nonneg: "round64 x = Fin y \<Longrightarrow> 0 \<le> x \<Longrightarrow> 0 \<le> y"
  using round64_nonneg[of x] by simp

lemma round64_not_NInf: "0 \<le> x \<Longrightarrow> round64 x \<noteq> NInf"
  using round64_nonneg[of x] by auto

lemma round64_unit:
  assumes "0 \<le> x" "x \<le> 1"
  shows "\<exists>q. round64 x = Fin q \<and> 0 \<le> q \<and> q \<le> 1"
proof -
  have "fle (Fin 0) (round64 x)" using assms(1) by (rule round64_nonneg)
  moreover have "fle (round64 x) (Fin 1)" using round64_mono[OF assms(2)] by simp
  ultimately show ?thesis by (cases "round64 x") simp_all
qed

section \<open>Special values in sums and extrema\<close>

lemma fadd_NaN_right [simp]: "fadd a NaN = NaN" by (cases a) auto
lemma fmul_NaN_right [simp]: "fmul a NaN = NaN" by (cases a) auto
lemma fdiv_NaN_right [simp]: "fdiv a NaN = NaN" by (cases a) auto
lemma fsub_NaN [simp]: "fsub a NaN = NaN" "fsub NaN a = NaN" by (simp_all add: fsub_def)
lemma fsquare_simps [simp]:
  "fsquare (Fin a) = round64 (a * a)" "fsquare NaN = NaN" "fsquare PInf = PInf" "fsquare NInf = PInf"
  by (simp_all add: fsquare_def)
lemma fsub_Fin [simp]: "fsub (Fin a) (Fin b) = round64 (a - b)" by (simp add: fsub_def)

lemma foldl_fadd_NaN: "foldl fadd NaN xs = NaN"
  by (induction xs) auto

lemma foldl_fadd_mem_NaN: "NaN \<in> set xs \<Longrightarrow> foldl fadd a xs = NaN"
  by (induction xs arbitrary: a) (auto simp: foldl_fadd_NaN)

lemma np_sum_NaN: "NaN \<in> set xs \<Longrightarrow> np_sum xs = NaN"
  by (simp add: np_sum_def foldl_fadd_mem_NaN)

lemma foldl_fadd_zeros: "\<forall>x\<in>set xs. x = Fin 0 \<Longrightarrow> foldl fadd (Fin 0) xs = Fin 0"
  by (induction xs) simp_all

lemma np_sum_zeros: "\<forall>x\<in>set xs. x = Fin 0 \<Longrightarrow> np_sum xs = Fin 0"
  by (simp add: np_sum_def foldl_fadd_zeros)

lemma fmaximum_simps [simp]:
  "fmaximum NaN b = NaN" "fmaximum a NaN = NaN" "fmaximum (Fin x) (Fin y) = Fin (max x y)"
  by (auto simp: fmaximum_def max_def)

lemma fminimum_simps [simp]:
  "fminimum NaN b = NaN" "fminimum a NaN = NaN" "fminimum (Fin x) (Fin y) = Fin (min x y)"
  by (auto simp: fminimum_def min_def)

lemma foldl_fmaximum_NaN: "foldl fmaximum NaN xs = NaN"
  by (induction xs) auto

lemma foldl_fmaximum_mem_NaN: "NaN \<in> set xs \<Longrightarrow> foldl fmaximum a xs = NaN"
  by (induction xs arbitrary: a) (auto simp: foldl_fmaximum_NaN)

lemma foldl_fminimum_NaN: "foldl fminimum NaN xs = NaN"
  by (induction xs) auto

lemma foldl_fminimum_mem_NaN: "NaN \<in> set xs \<Longrightarrow> foldl fminimum a xs = NaN"
  by (induction xs arbitrary: a) (auto simp: foldl_fminimum_NaN)

lemma np_max_NaN: "NaN \<in> set xs \<Longrightarrow> np_max xs = Inr NaN"
  by (cases xs) (auto simp: foldl_fmaximum_NaN foldl_fmaximum_mem_NaN)

lemma np_min_NaN: "NaN \<in> set xs \<Longrightarrow> np_min xs = Inr NaN"
  by (cases xs) (auto simp: foldl_fminimum_NaN foldl_fminimum_mem_NaN)

lemma foldl_fmaximum_Fin: "foldl fmaximum (Fin a) (map Fin xs) = Fin (Max (set (a # xs)))"
proof (induction xs arbitrary: a)
  case Nil
  show ?case by simp
next
  case (Cons x xs)
  have "Max (insert (max a x) (set xs)) = Max (insert a (insert x (set xs)))"
    by (cases "set xs = {}") (simp_all add: max.assoc)
  with Cons show ?case by simp
qed

lemma foldl_fminimum_Fin: "foldl fminimum (Fin a) (map Fin xs) = Fin (Min (set (a # xs)))"
proof (induction xs arbitrary: a)
  case Nil
  show ?case by simp
next
  case (Cons x xs)
  have "Min (insert (min a x) (set xs)) = Min (insert a (insert x (set xs)))"
    by (cases "set xs = {}") (simp_all add: min.assoc)
  with Cons show ?case by simp
qed

lemma np_max_Fin: "xs \<noteq> [] \<Longrightarrow> np_max (map Fin xs) = Inr (Fin (Max (set xs)))"
  by (cases xs) (simp_all add: foldl_fmaximum_Fin del: Max_insert set_simps)

lemma np_min_Fin: "xs \<noteq> [] \<Longrightarrow> np_min (map Fin xs) = Inr (Fin (Min (set xs)))"
  by (cases xs) (simp_all add: foldl_fminimum_Fin del: Min_insert set_simps)


section \<open>The stages, entry by entry\<close>

lemma length_mk_matrix [simp]: "length (mk_matrix m n f) = m"
  by (simp add: mk_matrix_def)

lemma mk_matrix_nth [simp]: "i < m \<Longrightarrow> mk_matrix m n f ! i = map (f i) [0..<n]"
  by (simp add: mk_matrix_def)

lemma mk_matrix_rect: "r \<in> set (mk_matrix m n f) \<Longrightarrow> length r = n"
  by (auto simp: mk_matrix_def)

lemma mk_matrix_cong: "(\<And>i j. i < m \<Longrightarrow> j < n \<Longrightarrow> f i j = g i j) \<Longrightarrow> mk_matrix m n f = mk_matrix m n g"
  by (simp add: mk_matrix_def)

lemma rect_mk_matrix:
  assumes "\<forall>r\<in>set rows. length r = n"
  shows "rows = mk_matrix (length rows) n (\<lambda>i j. rows ! i ! j)"
proof (rule nth_equalityI)
  show "length rows = length (mk_matrix (length rows) n (\<lambda>i j. rows ! i ! j))" by simp
next
  fix i assume i: "i < length rows"
  then have "length (rows ! i) = n" using assms by simp
  moreover have "map ((!) (rows ! i)) [0..<length (rows ! i)] = rows ! i" by (rule map_nth)
  ultimately have "rows ! i = map ((!) (rows ! i)) [0..<n]" by simp
  then show "rows ! i = mk_matrix (length rows) n (\<lambda>i j. rows ! i ! j) ! i"
    using i by simp
qed

lemma map_map_mk_matrix: "map (map g) (mk_matrix m n f) = mk_matrix m n (\<lambda>i j. g (f i j))"
  by (simp add: mk_matrix_def)

lemma column_mk_matrix: "j < n \<Longrightarrow> column (mk_matrix m n f) j = map (\<lambda>i. f i j) [0..<m]"
  by (simp add: column_def mk_matrix_def)

lemma map2_index: "length v = n \<Longrightarrow> map2 g (map h [0..<n]) v = map (\<lambda>j. g (h j) (v ! j)) [0..<n]"
  by (rule nth_equalityI) simp_all

lemma rows_map2_mk_matrix:
  "length v = n \<Longrightarrow> map (\<lambda>r. map2 g r v) (mk_matrix m n f) = mk_matrix m n (\<lambda>i j. g (f i j) (v ! j))"
  by (simp add: mk_matrix_def map2_index)

lemma sum_axis0_mk_matrix:
  "sum_axis0 n (mk_matrix m n f) = map (\<lambda>j. np_sum (map (\<lambda>i. f i j) [0..<m])) [0..<n]"
  by (simp add: sum_axis0_def column_mk_matrix)

lemma normalize_mk_matrix:
  "normalize_matrix (Arr2 n (mk_matrix m n f)) =
     Arr2 n (mk_matrix m n (\<lambda>i j. fdiv (f i j) (norm_den m f j)))"
  by (simp add: normalize_matrix_def map_map_mk_matrix sum_axis0_mk_matrix rows_map2_mk_matrix
      norm_den_def cong: mk_matrix_cong)

lemma weighted_mk_matrix:
  "length w = n \<Longrightarrow>
   calculate_weighted_matrix (Arr2 n (mk_matrix m n f)) w =
     Inr (Arr2 n (mk_matrix m n (\<lambda>i j. fmul (f i j) (w ! j))))"
  by (simp add: calculate_weighted_matrix_def broadcast2_def rows_map2_mk_matrix)

lemma np_max_col_max: "xs \<noteq> [] \<Longrightarrow> np_max xs = Inr (col_max xs)"
  by (cases xs) (simp_all add: col_max_def)

lemma np_min_col_min: "xs \<noteq> [] \<Longrightarrow> np_min xs = Inr (col_min xs)"
  by (cases xs) (simp_all add: col_min_def)

lemma ideal_loop_result:
  assumes "rows \<noteq> []" "\<forall>j\<in>set js. j < length types \<and> j < length Ap" "length Am = length Ap"
  shows "ideal_loop rows types js Ap Am =
           Inr (map (\<lambda>j. if j \<in> set js then ideal_at True rows types j else Ap ! j) [0..<length Ap],
                map (\<lambda>j. if j \<in> set js then ideal_at False rows types j else Am ! j) [0..<length Ap])"
  using assms
proof (induction js arbitrary: Ap Am)
  case Nil
  then show ?case by (simp add: map_nth) (metis map_nth)
next
  case (Cons j js)
  have col: "column rows j \<noteq> []" using Cons.prems(1) by (simp add: column_def)
  have j: "j < length types" "j < length Ap" "j < length Am" using Cons.prems by auto
  show ?case
  proof (cases "types ! j = ''benefit''")
    case True
    have "ideal_loop rows types (j # js) Ap Am =
            ideal_loop rows types js (Ap[j := col_max (column rows j)]) (Am[j := col_min (column rows j)])"
      using j True col by (simp add: np_max_col_max np_min_col_min)
    also have "\<dots> = Inr (map (\<lambda>ja. if ja \<in> set js then ideal_at True rows types ja else Ap[j := col_max (column rows j)] ! ja) [0..<length Ap],
                map (\<lambda>ja. if ja \<in> set js then ideal_at False rows types ja else Am[j := col_min (column rows j)] ! ja) [0..<length Ap])"
      using Cons.IH[of "Ap[j := col_max (column rows j)]" "Am[j := col_min (column rows j)]"] Cons.prems
      by simp
    also have "\<dots> = Inr (map (\<lambda>ja. if ja \<in> set (j # js) then ideal_at True rows types ja else Ap ! ja) [0..<length Ap],
                map (\<lambda>ja. if ja \<in> set (j # js) then ideal_at False rows types ja else Am ! ja) [0..<length Ap])"
      using j True Cons.prems(3) by (auto simp: ideal_at_def nth_list_update)
    finally show ?thesis .
  next
    case False
    have "ideal_loop rows types (j # js) Ap Am =
            ideal_loop rows types js (Ap[j := col_min (column rows j)]) (Am[j := col_max (column rows j)])"
      using j False col by (simp add: np_max_col_max np_min_col_min)
    also have "\<dots> = Inr (map (\<lambda>ja. if ja \<in> set js then ideal_at True rows types ja else Ap[j := col_min (column rows j)] ! ja) [0..<length Ap],
                map (\<lambda>ja. if ja \<in> set js then ideal_at False rows types ja else Am[j := col_max (column rows j)] ! ja) [0..<length Ap])"
      using Cons.IH[of "Ap[j := col_min (column rows j)]" "Am[j := col_max (column rows j)]"] Cons.prems
      by simp
    also have "\<dots> = Inr (map (\<lambda>ja. if ja \<in> set (j # js) then ideal_at True rows types ja else Ap ! ja) [0..<length Ap],
                map (\<lambda>ja. if ja \<in> set (j # js) then ideal_at False rows types ja else Am ! ja) [0..<length Ap])"
      using j False Cons.prems(3) by (auto simp: ideal_at_def nth_list_update)
    finally show ?thesis .
  qed
qed

lemma find_ideal_result:
  assumes "rows \<noteq> []" "n \<le> length types"
  shows "find_ideal_solutions (Arr2 n rows) types =
           Inr (map (ideal_at True rows types) [0..<n], map (ideal_at False rows types) [0..<n])"
  using ideal_loop_result[of rows "[0..<n]" types "replicate n (Fin 0)" "replicate n (Fin 0)"] assms
  by (simp add: find_ideal_solutions_def)

lemma distance_to_mk_matrix:
  assumes "length A = n"
  shows "distance_to (Arr2 n (mk_matrix m n f)) A =
           Inr (map (\<lambda>i. dist_at n (f i) ((!) A)) [0..<m])"
  using assms
  by (simp add: distance_to_def broadcast2_def rows_map2_mk_matrix nd_map_def map_map_mk_matrix
      sum_axis1_def dist_at_def) (simp add: mk_matrix_def comp_def)

lemma preference_values_result:
  assumes "length Dp = length Dm"
  shows "calculate_preference_values Dp Dm = Inr (map2 pref_at Dp Dm)"
proof -
  have "map nan_to_num (map2 fdiv Dm (map2 fadd Dp Dm)) = map2 pref_at Dp Dm"
    using assms by (intro nth_equalityI) (simp_all add: pref_at_def)
  then show ?thesis using assms
    by (simp add: calculate_preference_values_def broadcast1_def)
qed


lemma np_array_rect:
  assumes "data \<noteq> []" "\<forall>r\<in>set data. length r = n"
  shows "np_array data = Inr (Arr2 n data)"
  using assms by (cases data) (auto simp: np_array_def list_all_iff)

lemma dist_at_cong: "(\<And>j. j < n \<Longrightarrow> a j = b j) \<Longrightarrow> dist_at n row a = dist_at n row b"
proof -
  assume "\<And>j. j < n \<Longrightarrow> a j = b j"
  then have "map (\<lambda>j. fsquare (fsub (row j) (a j))) [0..<n] = map (\<lambda>j. fsquare (fsub (row j) (b j))) [0..<n]"
    by (intro map_cong) simp_all
  then show ?thesis by (simp only: dist_at_def)
qed

lemma perform_explicit:
  assumes "data \<noteq> []" "\<forall>r\<in>set data. length r = n" "length w = n" "n \<le> length t"
  shows "perform_topsis_calculation data w t =
     Inr \<lparr>normalized_matrix = Arr2 n (mk_matrix (length data) n (norm_entry data)),
          weighted_matrix = Arr2 n (weighted_rows n data w),
          A_plus = map (ideal_at True (weighted_rows n data w) t) [0..<n],
          A_minus = map (ideal_at False (weighted_rows n data w) t) [0..<n],
          D_plus = map (dist_entry True n data w t) [0..<length data],
          D_minus = map (dist_entry False n data w t) [0..<length data],
          preference_values = map (pref_entry n data w t) [0..<length data]\<rparr>"
proof -
  let ?m = "length data"
  let ?W = "weighted_rows n data w"
  have a: "np_array data = Inr (Arr2 n data)" using assms(1,2) by (rule np_array_rect)
  have d: "data = mk_matrix ?m n (\<lambda>i j. data ! i ! j)" using assms(2) by (rule rect_mk_matrix)
  have "normalize_matrix (Arr2 n data) = normalize_matrix (Arr2 n (mk_matrix ?m n (\<lambda>i j. data ! i ! j)))"
    using d by simp
  then have nm: "normalize_matrix (Arr2 n data) = Arr2 n (mk_matrix ?m n (norm_entry data))"
    by (simp add: normalize_mk_matrix norm_entry_def[abs_def])
  have wm: "calculate_weighted_matrix (Arr2 n (mk_matrix ?m n (norm_entry data))) w = Inr (Arr2 n ?W)"
    using assms(3) by (simp add: weighted_mk_matrix weighted_rows_def weighted_entry_def[abs_def])
  have ne: "?W \<noteq> []" using assms(1) by (simp add: weighted_rows_def mk_matrix_def)
  have fi: "find_ideal_solutions (Arr2 n ?W) t =
      Inr (map (ideal_at True ?W t) [0..<n], map (ideal_at False ?W t) [0..<n])"
    using ne assms(4) by (rule find_ideal_result)
  have dist: "distance_to (Arr2 n ?W) (map (ideal_at b ?W t) [0..<n]) =
      Inr (map (dist_entry b n data w t) [0..<?m])" for b
  proof -
    have "distance_to (Arr2 n (mk_matrix ?m n (weighted_entry data w))) (map (ideal_at b ?W t) [0..<n]) =
        Inr (map (\<lambda>i. dist_at n (weighted_entry data w i) ((!) (map (ideal_at b ?W t) [0..<n]))) [0..<?m])"
      by (rule distance_to_mk_matrix) simp
    moreover have "dist_at n (weighted_entry data w i) ((!) (map (ideal_at b ?W t) [0..<n])) =
        dist_entry b n data w t i" for i
      unfolding dist_entry_def by (rule dist_at_cong) simp
    ultimately show ?thesis by (simp add: weighted_rows_def)
  qed
  have cd: "calculate_distances (Arr2 n ?W) (map (ideal_at True ?W t) [0..<n]) (map (ideal_at False ?W t) [0..<n]) =
      Inr (map (dist_entry True n data w t) [0..<?m], map (dist_entry False n data w t) [0..<?m])"
    by (simp add: calculate_distances_def dist)
  have pv: "calculate_preference_values (map (dist_entry True n data w t) [0..<?m])
        (map (dist_entry False n data w t) [0..<?m]) = Inr (map (pref_entry n data w t) [0..<?m])"
  proof -
    have "map2 pref_at (map (dist_entry True n data w t) [0..<?m]) (map (dist_entry False n data w t) [0..<?m]) =
        map (pref_entry n data w t) [0..<?m]"
      by (intro nth_equalityI) (simp_all add: pref_entry_def)
    then show ?thesis by (simp add: preference_values_result)
  qed
  show ?thesis
    unfolding perform_topsis_calculation_def by (simp add: a nm wm fi cd pv)
qed

lemma broadcast2_Arr2:
  "broadcast2 f (Arr2 n rows) v =
     (if broadcast_ok n (length v)
      then Inr (Arr2 (broadcast_len n (length v))
                 (if length v = n then map (\<lambda>r. map2 f r v) rows
                  else if length v = 1 then map (map (\<lambda>x. f x (hd v))) rows
                  else map (\<lambda>r. map (f (hd r)) v) rows))
      else Inl ValueError)"
  by (auto simp: broadcast2_def broadcast_ok_def broadcast_len_def)

lemma ideal_loop_short:
  assumes "\<exists>j\<in>set js. length types \<le> j"
  shows "isl (ideal_loop rows types js Ap Am)"
  using assms
  by (induction js arbitrary: Ap Am) (auto split: sum.splits)

lemma ideal_loop_ok:
  assumes "rows \<noteq> []" "\<forall>j\<in>set js. j < length types"
  shows "\<exists>Ap' Am'. ideal_loop rows types js Ap Am = Inr (Ap', Am') \<and> length Ap' = length Ap \<and> length Am' = length Am"
  using assms
proof (induction js arbitrary: Ap Am)
  case Nil
  then show ?case by simp
next
  case (Cons j js)
  have col: "column rows j \<noteq> []" using Cons.prems(1) by (simp add: column_def)
  show ?case
    using Cons.IH[of "Ap[j := col_max (column rows j)]" "Am[j := col_min (column rows j)]"]
      Cons.IH[of "Ap[j := col_min (column rows j)]" "Am[j := col_max (column rows j)]"]
      Cons.prems col
    by (simp add: np_max_col_max np_min_col_min)
qed

lemma distance_to_ok:
  "length A = n \<Longrightarrow> \<exists>D. distance_to (Arr2 n rows) A = Inr D \<and> length D = length rows"
  by (simp add: distance_to_def broadcast2_def nd_map_def sum_axis1_def)

lemma perform_fails_iff:
  "isl (perform_topsis_calculation data w t) \<longleftrightarrow>
     (data = [] \<or> \<not> rectangular data \<or> \<not> broadcast_ok (length (hd data)) (length w)
      \<or> length t < broadcast_len (length (hd data)) (length w))"
proof (cases data)
  case Nil
  have "isl (find_ideal_solutions a t)" if "a = Arr1 xs" for a xs
    using that by (simp add: find_ideal_solutions_def)
  then show ?thesis using Nil
    by (auto simp: perform_topsis_calculation_def np_array_def normalize_matrix_def
        calculate_weighted_matrix_def broadcast2_def find_ideal_solutions_def split: sum.splits)
next
  case (Cons r rs)
  then have ne: "data \<noteq> []" by simp
  let ?n = "length (hd data)"
  show ?thesis
  proof (cases "rectangular data")
    case False
    then have "np_array data = Inl ValueError" using Cons
      by (simp add: np_array_def rectangular_def)
    then show ?thesis using False
      by (simp add: perform_topsis_calculation_def)
  next
    case True
    then have a: "np_array data = Inr (Arr2 ?n data)" using Cons
      by (simp add: np_array_def rectangular_def)
    obtain R where nm: "normalize_matrix (Arr2 ?n data) = Arr2 ?n R" "length R = length data"
      by (simp add: normalize_matrix_def Let_def)
    show ?thesis
    proof (cases "broadcast_ok ?n (length w)")
      case False
      then have "calculate_weighted_matrix (Arr2 ?n R) w = Inl ValueError"
        by (simp add: calculate_weighted_matrix_def broadcast2_Arr2)
      then show ?thesis using False
        by (simp add: perform_topsis_calculation_def a nm)
    next
      case ok: True
      let ?n' = "broadcast_len ?n (length w)"
      obtain W where wm: "calculate_weighted_matrix (Arr2 ?n R) w = Inr (Arr2 ?n' W)" "length W = length data"
        using ok nm(2) by (simp add: calculate_weighted_matrix_def broadcast2_Arr2)
      have Wne: "W \<noteq> []" using wm(2) ne by auto
      show ?thesis
      proof (cases "length t < ?n'")
        case short: True
        then have "isl (find_ideal_solutions (Arr2 ?n' W) t)"
          unfolding find_ideal_solutions_def
          by (auto intro!: ideal_loop_short bexI[of _ "length t"])
        then have "isl (perform_topsis_calculation data w t)"
          by (auto simp: perform_topsis_calculation_def a nm wm split: sum.splits)
        then show ?thesis using short by simp
      next
        case False
        then obtain Ap Am where fi: "find_ideal_solutions (Arr2 ?n' W) t = Inr (Ap, Am)"
            "length Ap = ?n'" "length Am = ?n'"
          using ideal_loop_ok[of W "[0..<?n']" t "replicate ?n' (Fin 0)" "replicate ?n' (Fin 0)"] Wne
          by (auto simp: find_ideal_solutions_def)
        obtain Dp where dp: "distance_to (Arr2 ?n' W) Ap = Inr Dp" "length Dp = length W"
          using distance_to_ok[OF fi(2)] by blast
        obtain Dm where dm: "distance_to (Arr2 ?n' W) Am = Inr Dm" "length Dm = length W"
          using distance_to_ok[OF fi(3)] by blast
        have "\<not> isl (perform_topsis_calculation data w t)"
          using dp dm
          by (simp add: perform_topsis_calculation_def a nm wm fi calculate_distances_def
              preference_values_result)
        then show ?thesis using ne True ok False by simp
      qed
    qed
  qed
qed

section \<open>All-zero columns\<close>

lemma valid_inputD:
  assumes "valid_input data w t"
  shows "data \<noteq> []" and "\<forall>r\<in>set data. length r = length (hd data)"
    and "length w = length (hd data)" and "length (hd data) \<le> length t"
    and "1 \<le> length (hd data)"
proof -
  from assms have a: "data \<noteq> [] \<and> 1 \<le> length (hd data)
      \<and> list_all (\<lambda>r. length r = length (hd data)) data
      \<and> length w = length (hd data) \<and> length t = length (hd data)"
    unfolding valid_input_def by blast
  show "data \<noteq> []" using a by blast
  show "\<forall>r\<in>set data. length r = length (hd data)" using a unfolding list_all_iff by blast
  show "length w = length (hd data)" using a by blast
  show "length (hd data) \<le> length t" using a by linarith
  show "1 \<le> length (hd data)" using a by blast
qed

lemma col_max_NaN: "NaN \<in> set xs \<Longrightarrow> col_max xs = NaN"
  using np_max_NaN[of xs] np_max_col_max[of xs] by (cases xs) auto

lemma col_min_NaN: "NaN \<in> set xs \<Longrightarrow> col_min xs = NaN"
  using np_min_NaN[of xs] np_min_col_min[of xs] by (cases xs) auto

lemma dist_at_NaN: "j < n \<Longrightarrow> row j = NaN \<or> a j = NaN \<Longrightarrow> dist_at n row a = NaN"
proof -
  assume j: "j < n" and h: "row j = NaN \<or> a j = NaN"
  have "fsquare (fsub (row j) (a j)) = NaN" using h by auto
  then have "NaN \<in> set (map (\<lambda>j. fsquare (fsub (row j) (a j))) [0..<n])"
    using j by (auto simp: image_iff intro!: bexI[of _ j])
  then show ?thesis by (simp add: dist_at_def np_sum_NaN)
qed

lemma zero_column_norm_entry:
  assumes "\<forall>r\<in>set data. r ! j = Fin 0" "i < length data"
  shows "norm_entry data i j = NaN"
proof -
  have "\<forall>x\<in>set (map (\<lambda>i. fsquare (data ! i ! j)) [0..<length data]). x = Fin 0"
    using assms(1) by simp
  then have "np_sum (map (\<lambda>i. fsquare (data ! i ! j)) [0..<length data]) = Fin 0"
    by (rule np_sum_zeros)
  then have "norm_den (length data) (\<lambda>i j. data ! i ! j) j = Fin 0"
    unfolding norm_den_def by simp
  moreover have "data ! i ! j = Fin 0" using assms by simp
  ultimately show ?thesis by (simp add: norm_entry_def)
qed

lemma zero_column_ideal:
  assumes "\<forall>r\<in>set data. r ! j = Fin 0" "data \<noteq> []" "j < n"
  shows "ideal_at b (weighted_rows n data w) t j = NaN"
proof -
  have "column (weighted_rows n data w) j = map (\<lambda>i. weighted_entry data w i j) [0..<length data]"
    using assms(3) by (simp add: weighted_rows_def column_mk_matrix)
  also have "\<dots> = map (\<lambda>i. NaN) [0..<length data]"
    using assms(1) by (simp add: weighted_entry_def zero_column_norm_entry)
  finally have "NaN \<in> set (column (weighted_rows n data w) j)"
    using assms(2) by (auto simp: image_iff)
  then show ?thesis by (simp add: ideal_at_def col_max_NaN col_min_NaN)
qed

lemma zero_column_pref:
  assumes "\<forall>r\<in>set data. r ! j = Fin 0" "data \<noteq> []" "j < n"
  shows "pref_entry n data w t i = 0"
proof -
  have "dist_entry b n data w t i = NaN" for b
    unfolding dist_entry_def using assms(3) zero_column_ideal[OF assms]
    by (intro dist_at_NaN[of j]) simp_all
  then show ?thesis by (simp add: pref_entry_def pref_at_def)
qed


lemma sqrt_25: "sqrt 25 = 5"
  by (rule real_sqrt_unique) simp_all


text \<open>
  Claim C3, as amended. For every valid input whose matrix has a column of zeros, the
  normalizer yields NaN (not zero) for every entry of that column, without raising, and
  the calculation as a whole returns a result, whose normalized matrix is the
  normalizer's output.
\<close>

theorem zero_column_normalizes_to_nan:
  assumes "valid_input data w t" "j < length (hd data)" "\<forall>r\<in>set data. r ! j = Fin 0"
  shows "\<exists>res R. perform_topsis_calculation data w t = Inr res
           \<and> normalized_matrix res = normalize_matrix (Arr2 (length (hd data)) data)
           \<and> normalize_matrix (Arr2 (length (hd data)) data) = Arr2 (length (hd data)) R
           \<and> length R = length data
           \<and> (\<forall>i<length data. R ! i ! j = NaN)"
proof -
  note v = valid_inputD[OF assms(1)]
  let ?n = "length (hd data)"
  have d: "data = mk_matrix (length data) ?n (\<lambda>i j. data ! i ! j)" using v(2) by (rule rect_mk_matrix)
  have "normalize_matrix (Arr2 ?n data) = normalize_matrix (Arr2 ?n (mk_matrix (length data) ?n (\<lambda>i j. data ! i ! j)))"
    using d by simp
  then have nm: "normalize_matrix (Arr2 ?n data) = Arr2 ?n (mk_matrix (length data) ?n (norm_entry data))"
    by (simp add: normalize_mk_matrix norm_entry_def[abs_def])
  have "\<forall>i<length data. mk_matrix (length data) ?n (norm_entry data) ! i ! j = NaN"
    using assms(2) zero_column_norm_entry[OF assms(3)] by simp
  then show ?thesis
    using perform_explicit[OF v(1) v(2) v(3) v(4)] nm by simp
qed

theorem zero_column_normalizes_to_nan_witness:
  "\<exists>res R. perform_topsis_calculation [[Fin 0, Fin 3], [Fin 0, Fin 4]] [Fin (1/2), Fin (1/2)]
            [''benefit'', ''cost''] = Inr res
         \<and> normalized_matrix res = normalize_matrix (Arr2 2 [[Fin 0, Fin 3], [Fin 0, Fin 4]])
         \<and> normalize_matrix (Arr2 2 [[Fin 0, Fin 3], [Fin 0, Fin 4]]) = Arr2 2 R
         \<and> length R = 2 \<and> (\<forall>i<2. R ! i ! 0 = NaN)"
  using zero_column_normalizes_to_nan[of "[[Fin 0, Fin 3], [Fin 0, Fin 4]]" "[Fin (1/2), Fin (1/2)]"
      "[''benefit'', ''cost'']" 0]
  by (simp add: valid_input_def numeral_2_eq_2)

text \<open>
  Claim C3 as stated fails: on a matrix whose first column is zero the normalizer returns
  NaN in that column, not zero.
\<close>

theorem zero_column_not_zero_counterexample:
  "normalize_matrix (Arr2 2 [[Fin 0, Fin 3], [Fin 0, Fin 4]])
     = Arr2 2 [[NaN, round64 (3/5)], [NaN, round64 (4/5)]]"
proof -
  have r: "round64 9 = Fin 9" "round64 16 = Fin 16" "round64 25 = Fin 25" "round64 5 = Fin 5"
    using round64_of_int[of 9] round64_of_int[of 16] round64_of_int[of 25] round64_of_int[of 5]
    by simp_all
  show ?thesis
    by (simp add: normalize_matrix_def sum_axis0_def column_def np_sum_def sqrt_25 numeral_2_eq_2 r)
qed

section \<open>Failure conditions\<close>




section \<open>Range of the scores\<close>

lemma fsqrt_cases:
  "fsqrt a = NaN \<or> fsqrt a = PInf \<or> (\<exists>y. fsqrt a = Fin y \<and> 0 \<le> y \<and> is_double y)"
proof (cases a)
  case (Fin x)
  show ?thesis
  proof (cases "x < 0")
    case True
    then show ?thesis using Fin by simp
  next
    case False
    then have nn: "0 \<le> sqrt x" by simp
    show ?thesis
    proof (cases "round64 (sqrt x)")
      case (Fin y)
      then have "0 \<le> y" "is_double y"
        using nn round64_Fin_nonneg round64_is_double by blast+
      then show ?thesis using \<open>a = Fin x\<close> False Fin by simp
    next
      case NInf
      then show ?thesis using round64_not_NInf[OF nn] by simp
    qed (use \<open>a = Fin x\<close> False in simp_all)
  qed
qed simp_all

lemma pref_at_Fin_range:
  assumes "0 \<le> p" "0 \<le> m" "is_double m"
  shows "0 \<le> pref_at (Fin p) (Fin m) \<and> pref_at (Fin p) (Fin m) \<le> 1"
proof -
  have m: "round64 m = Fin m" using assms(3) by (rule round64_exact)
  have le: "fle (Fin m) (round64 (p + m))" using round64_mono[of m "p + m"] assms(1) m by simp
  show ?thesis
  proof (cases "round64 (p + m)")
    case (Fin sv)
    then have msv: "m \<le> sv" using le by simp
    show ?thesis
    proof (cases "sv = 0")
      case True
      then have "m = 0" using msv assms(2) by linarith
      then show ?thesis using Fin True by (simp add: pref_at_def)
    next
      case False
      then have pos: "0 < sv" using msv assms(2) by linarith
      then have "0 \<le> m / sv" "m / sv \<le> 1" using assms(2) msv by simp_all
      then obtain q where "round64 (m / sv) = Fin q" "0 \<le> q" "q \<le> 1"
        using round64_unit by blast
      then show ?thesis using Fin False by (simp add: pref_at_def)
    qed
  qed (use le in \<open>simp_all add: pref_at_def\<close>)
qed

lemma pref_at_range:
  assumes "dp = NaN \<or> dp = PInf \<or> (\<exists>y. dp = Fin y \<and> 0 \<le> y \<and> is_double y)"
    and "dm = NaN \<or> dm = PInf \<or> (\<exists>y. dm = Fin y \<and> 0 \<le> y \<and> is_double y)"
  shows "0 \<le> pref_at dp dm \<and> pref_at dp dm \<le> 1"
proof -
  consider "dp = NaN \<or> dm = NaN" | "dp = PInf" "dm \<noteq> NaN" | "dm = PInf" "dp \<noteq> NaN" "dp \<noteq> PInf"
    | p m where "dp = Fin p" "dm = Fin m" "0 \<le> p" "0 \<le> m" "is_double m"
    using assms by blast
  then show ?thesis
  proof cases
    case 1
    then show ?thesis by (auto simp: pref_at_def)
  next
    case 2
    then show ?thesis using assms(2) by (auto simp: pref_at_def)
  next
    case 3
    then show ?thesis using assms(1) by (auto simp: pref_at_def)
  next
    case 4
    then show ?thesis using pref_at_Fin_range by simp
  qed
qed

lemma pref_at_sqrt_range: "0 \<le> pref_at (fsqrt a) (fsqrt b) \<and> pref_at (fsqrt a) (fsqrt b) \<le> 1"
  by (rule pref_at_range) (rule fsqrt_cases)+

lemma pref_entry_range: "0 \<le> pref_entry n data w t i \<and> pref_entry n data w t i \<le> 1"
  unfolding pref_entry_def dist_entry_def dist_at_def by (rule pref_at_sqrt_range)

text \<open>
  Claim C6. For every valid input the calculation returns a result with one preference
  score per alternative, and every score lies in the closed interval from 0 to 1.
\<close>

theorem preference_scores_in_unit_interval:
  assumes "valid_input data w t"
  shows "\<exists>res. perform_topsis_calculation data w t = Inr res
           \<and> length (preference_values res) = length data
           \<and> (\<forall>v\<in>set (preference_values res). 0 \<le> v \<and> v \<le> 1)"
proof -
  note v = valid_inputD[OF assms]
  show ?thesis
    using perform_explicit[OF v(1) v(2) v(3) v(4)] pref_entry_range by auto
qed

theorem preference_scores_in_unit_interval_witness:
  "\<exists>res. perform_topsis_calculation [[Fin 250, Fin 16], [Fin 200, Fin 16], [Fin 300, Fin 32]]
            [Fin (1/4), Fin (1/4)] [''cost'', ''benefit''] = Inr res
         \<and> length (preference_values res) = length [[Fin 250, Fin 16], [Fin 200, Fin 16], [Fin 300, Fin (32::real)]]
         \<and> (\<forall>v\<in>set (preference_values res). 0 \<le> v \<and> v \<le> 1)"
  using preference_scores_in_unit_interval[of "[[Fin 250, Fin 16], [Fin 200, Fin 16], [Fin 300, Fin 32]]"
      "[Fin (1/4), Fin (1/4)]" "[''cost'', ''benefit'']"]
  by (simp add: valid_input_def)

section \<open>The ranking\<close>

lemma insort_ranks:
  assumes "sorted_wrt (\<lambda>a b. ranks_before b a) zs" "\<forall>z\<in>set zs. fst z < fst x"
  shows "sorted_wrt (\<lambda>a b. ranks_before b a) (insort_key snd x zs)"
  using assms
proof (induction zs)
  case Nil
  then show ?case by simp
next
  case (Cons y ys)
  show ?case
  proof (cases "snd x \<le> snd y")
    case True
    have "ranks_before z x" if "z \<in> set (y # ys)" for z
    proof -
      have "snd y \<le> snd z" using that Cons.prems(1) by (auto simp: ranks_before_def)
      moreover have "fst z < fst x" using that Cons.prems(2) by auto
      ultimately show ?thesis using True by (auto simp: ranks_before_def)
    qed
    then show ?thesis using True Cons.prems(1) by simp
  next
    case False
    then have "ranks_before x y" by (simp add: ranks_before_def)
    moreover have "sorted_wrt (\<lambda>a b. ranks_before b a) (insort_key snd x ys)"
      using Cons by simp
    ultimately show ?thesis using False Cons.prems(1) by (auto simp: set_insort_key)
  qed
qed

lemma sort_rev_ranks:
  assumes "sorted_wrt (<) (map fst xs)"
  shows "sorted_wrt (\<lambda>a b. ranks_before b a) (sort_key snd (rev xs))"
  using assms
proof (induction xs rule: rev_induct)
  case Nil
  then show ?case by simp
next
  case (snoc x xs)
  from snoc.prems have s: "sorted_wrt (<) (map fst xs)" and b: "\<forall>z\<in>set xs. fst z < fst x"
    by (auto simp: sorted_wrt_append)
  have "sorted_wrt (\<lambda>a b. ranks_before b a) (insort_key snd x (sort_key snd (rev xs)))"
    using snoc.IH[OF s] b by (intro insort_ranks) simp_all
  then show ?case by simp
qed

lemma py_sorted_reverse_ranks:
  "sorted_wrt (<) (map fst xs) \<Longrightarrow> sorted_wrt ranks_before (py_sorted_reverse snd xs)"
  unfolding py_sorted_reverse_def sorted_wrt_rev by (rule sort_rev_ranks)

lemma mset_py_sorted_reverse: "mset (py_sorted_reverse key xs) = mset xs"
  by (simp add: py_sorted_reverse_def)

lemma ranking_entries_ok:
  assumes "\<forall>e\<in>set es. fst (snd e) < length names"
  shows "ranking_entries names es =
     Inr (map (\<lambda>e. \<lparr>rank = fst e + 1, alternative_index = fst (snd e),
                     alternative_name = names ! fst (snd e), score = snd (snd e)\<rparr>) es)"
  using assms by (induction names es rule: ranking_entries.induct) simp_all

lemma create_ranking_properties:
  assumes "length V \<le> length names"
  shows "\<exists>rk. create_ranking names V = Inr rk
     \<and> map rank rk = [1..<Suc (length V)]
     \<and> mset (map alternative_index rk) = mset [0..<length V]
     \<and> sorted (rev (map score rk))
     \<and> (\<forall>a b. a < b \<and> b < length rk \<and> score (rk ! a) = score (rk ! b)
            \<longrightarrow> alternative_index (rk ! a) < alternative_index (rk ! b))
     \<and> (\<forall>e\<in>set rk. alternative_index e < length V
            \<and> score e = V ! alternative_index e
            \<and> alternative_name e = names ! alternative_index e)"
proof -
  define S where "S = py_sorted_reverse snd (enumerate 0 V)"
  define mk where "mk = (\<lambda>e :: nat \<times> nat \<times> real. \<lparr>rank = fst e + 1, alternative_index = fst (snd e),
                     alternative_name = names ! fst (snd e), score = snd (snd e)\<rparr>)"
  define rk where "rk = map mk (enumerate 0 S)"
  have mS: "mset S = mset (enumerate 0 V)" by (simp add: S_def mset_py_sorted_reverse)
  then have setS: "set S = set (enumerate 0 V)" by (rule mset_eq_setD)
  have lenS: "length S = length V" using mS by (metis length_enumerate size_mset)
  have inS: "fst e < length V \<and> snd e = V ! fst e" if "e \<in> set S" for e
  proof -
    obtain i v where e: "e = (i, v)" by (cases e)
    have "(i, v) \<in> set (enumerate 0 V)" using that setS e by simp
    then show ?thesis using e by (simp add: in_set_enumerate_eq)
  qed
  have ranked: "sorted_wrt ranks_before S"
    unfolding S_def by (rule py_sorted_reverse_ranks) (simp add: enumerate_eq_zip)
  have cr: "create_ranking names V = Inr rk"
    unfolding create_ranking_def rk_def mk_def S_def[symmetric]
  proof (rule ranking_entries_ok, rule ballI)
    fix e assume h: "e \<in> set (enumerate 0 S)"
    obtain i p where e: "e = (i, p)" by (cases e)
    have "snd e \<in> set S" using h unfolding e by (auto simp: in_set_enumerate_eq)
    then show "fst (snd e) < length names" using inS[of "snd e"] assms by simp
  qed
  have idx: "map alternative_index rk = map fst S"
    by (simp add: rk_def mk_def comp_def flip: map_map[of fst snd, unfolded comp_def])
  have sc: "map score rk = map snd S"
    by (simp add: rk_def mk_def comp_def flip: map_map[of snd snd, unfolded comp_def])
  have rnk: "map rank rk = [1..<Suc (length V)]"
  proof -
    have "map rank rk = map (\<lambda>e. Suc (fst e)) (enumerate 0 S)"
      by (simp add: rk_def mk_def comp_def)
    also have "\<dots> = map Suc (map fst (enumerate 0 S))" by (simp only: map_map comp_def)
    also have "\<dots> = map Suc [0..<length V]" by (simp only: map_fst_enumerate) (simp add: lenS)
    also have "\<dots> = [1..<Suc (length V)]" by (simp add: map_Suc_upt)
    finally show ?thesis .
  qed
  have perm: "mset (map alternative_index rk) = mset [0..<length V]"
  proof -
    have "mset (map fst S) = image_mset fst (mset S)" by (simp only: mset_map)
    also have "\<dots> = image_mset fst (mset (enumerate 0 V))" by (simp only: mS)
    also have "\<dots> = mset (map fst (enumerate 0 V))" by (simp only: mset_map)
    also have "\<dots> = mset [0..<length V]" by (simp only: map_fst_enumerate add_0)
    finally show ?thesis by (simp only: idx)
  qed
  have desc: "sorted (rev (map score rk))"
  proof -
    have "sorted_wrt (\<lambda>a b. snd b \<le> snd a) S"
      using ranked by (rule sorted_wrt_mono_rel[rotated]) (auto simp: ranks_before_def)
    then show ?thesis by (simp add: sc sorted_wrt_rev sorted_wrt_map flip: rev_map)
  qed
  have lenrk: "length rk = length V" by (simp add: rk_def lenS)
  have ties: "alternative_index (rk ! a) < alternative_index (rk ! b)"
    if "a < b" "b < length rk" "score (rk ! a) = score (rk ! b)" for a b
  proof -
    have ab: "a < length S" "b < length S" using that lenrk lenS by simp_all
    have "ranks_before (S ! a) (S ! b)"
      using ranked that(1) ab(2) by (simp add: sorted_wrt_iff_nth_less)
    moreover have "score (rk ! a) = snd (S ! a)" "score (rk ! b) = snd (S ! b)"
      "alternative_index (rk ! a) = fst (S ! a)" "alternative_index (rk ! b) = fst (S ! b)"
      using ab by (simp_all add: rk_def mk_def nth_enumerate_eq)
    ultimately show ?thesis using that(3) by (simp add: ranks_before_def)
  qed
  have ent: "alternative_index e < length V \<and> score e = V ! alternative_index e
      \<and> alternative_name e = names ! alternative_index e" if "e \<in> set rk" for e
  proof -
    from that obtain i p where "(i, p) \<in> set (enumerate 0 S)" "e = mk (i, p)"
      by (auto simp: rk_def)
    then have "p \<in> set S" "e = mk (i, p)" by (auto simp: in_set_enumerate_eq)
    then show ?thesis using inS[of p] by (simp add: mk_def)
  qed
  show ?thesis using cr rnk perm desc ties ent by blast
qed

text \<open>
  Claim C1. For every valid input, with one name per alternative, the calculation
  returns a result and the ranking built from its scores assigns the ranks 1 to \<open>m\<close> in
  order, lists a permutation of the alternative indices 0 to \<open>m - 1\<close>, has its scores in
  descending order, and among equal scores puts the lower original index first; each
  entry carries the score and the name of its alternative.
\<close>

theorem ranking_is_sorted_permutation:
  assumes "valid_input data w t" "length names = length data"
  shows "\<exists>res rk. perform_topsis_calculation data w t = Inr res
     \<and> create_ranking names (preference_values res) = Inr rk
     \<and> map rank rk = [1..<Suc (length data)]
     \<and> mset (map alternative_index rk) = mset [0..<length data]
     \<and> sorted (rev (map score rk))
     \<and> (\<forall>a b. a < b \<and> b < length rk \<and> score (rk ! a) = score (rk ! b)
            \<longrightarrow> alternative_index (rk ! a) < alternative_index (rk ! b))
     \<and> (\<forall>e\<in>set rk. alternative_index e < length data
            \<and> score e = preference_values res ! alternative_index e
            \<and> alternative_name e = names ! alternative_index e)"
proof -
  note v = valid_inputD[OF assms(1)]
  obtain res where res: "perform_topsis_calculation data w t = Inr res"
      "length (preference_values res) = length data"
    using perform_explicit[OF v(1) v(2) v(3) v(4)] by simp
  show ?thesis
    using create_ranking_properties[of "preference_values res" names] res assms(2)
    by auto
qed

theorem ranking_is_sorted_permutation_witness:
  "\<exists>res rk. perform_topsis_calculation [[Fin 250, Fin 16], [Fin 200, Fin 16], [Fin 300, Fin 32]]
            [Fin (1/4), Fin (1/4)] [''cost'', ''benefit''] = Inr res
     \<and> create_ranking [''a'', ''b'', ''c''] (preference_values res) = Inr rk
     \<and> map rank rk = [1..<Suc (length [[Fin 250, Fin 16], [Fin 200, Fin 16], [Fin 300, Fin (32::real)]])]
     \<and> mset (map alternative_index rk) = mset [0..<length [[Fin 250, Fin 16], [Fin 200, Fin 16], [Fin 300, Fin (32::real)]]]
     \<and> sorted (rev (map score rk))
     \<and> (\<forall>a b. a < b \<and> b < length rk \<and> score (rk ! a) = score (rk ! b)
            \<longrightarrow> alternative_index (rk ! a) < alternative_index (rk ! b))
     \<and> (\<forall>e\<in>set rk. alternative_index e < length [[Fin 250, Fin 16], [Fin 200, Fin 16], [Fin 300, Fin (32::real)]]
            \<and> score e = preference_values res ! alternative_index e
            \<and> alternative_name e = [''a'', ''b'', ''c''] ! alternative_index e)"
  using ranking_is_sorted_permutation[of "[[Fin 250, Fin 16], [Fin 200, Fin 16], [Fin 300, Fin 32]]"
      "[Fin (1/4), Fin (1/4)]" "[''cost'', ''benefit'']" "[''a'', ''b'', ''c'']"]
  by (simp add: valid_input_def)

section \<open>Ideal points on finite matrices\<close>

lemma column_Fin:
  assumes "\<forall>r\<in>set W. length r = n" "j < n"
  shows "column (map (map Fin) W) j = map Fin (map (\<lambda>r. r ! j) W)"
  using assms by (simp add: column_def)

lemma col_max_Fin: "xs \<noteq> [] \<Longrightarrow> col_max (map Fin xs) = Fin (Max (set xs))"
  using np_max_Fin[of xs] np_max_col_max[of "map Fin xs"] by simp

lemma col_min_Fin: "xs \<noteq> [] \<Longrightarrow> col_min (map Fin xs) = Fin (Min (set xs))"
  using np_min_Fin[of xs] np_min_col_min[of "map Fin xs"] by simp

lemma ideal_at_Fin:
  assumes "W \<noteq> []" "\<forall>r\<in>set W. length r = n" "j < n"
  shows "ideal_at b (map (map Fin) W) t j =
     Fin (if (t ! j = ''benefit'') = b then Max (set (map (\<lambda>r. r ! j) W))
          else Min (set (map (\<lambda>r. r ! j) W)))"
proof -
  have ne: "map (\<lambda>r. r ! j) W \<noteq> []" using assms(1) by simp
  show ?thesis
    unfolding ideal_at_def column_Fin[OF assms(2,3)]
    by (simp only: col_max_Fin[OF ne] col_min_Fin[OF ne] if_distrib[of Fin])
qed

text \<open>
  Claim C4. For every weighted matrix of finite numbers with at least one row and every
  criterion column \<open>j\<close>, the ideal-point extractor returns the column maximum as \<open>A\<^sup>+[j]\<close>
  and the column minimum as \<open>A\<^sup>-[j]\<close> when the type of \<open>j\<close> is \<^verbatim>\<open>'benefit'\<close>, and the
  column minimum as \<open>A\<^sup>+[j]\<close> and the column maximum as \<open>A\<^sup>-[j]\<close> when it is \<^verbatim>\<open>'cost'\<close>.
\<close>

theorem ideal_points_are_column_extrema:
  assumes "W \<noteq> []" "\<forall>r\<in>set W. length r = n" "n \<le> length t" "j < n"
  shows "\<exists>Ap Am. find_ideal_solutions (Arr2 n (map (map Fin) W)) t = Inr (Ap, Am)
     \<and> length Ap = n \<and> length Am = n
     \<and> (t ! j = ''benefit'' \<longrightarrow>
          Ap ! j = Fin (Max (set (map (\<lambda>r. r ! j) W))) \<and> Am ! j = Fin (Min (set (map (\<lambda>r. r ! j) W))))
     \<and> (t ! j = ''cost'' \<longrightarrow>
          Ap ! j = Fin (Min (set (map (\<lambda>r. r ! j) W))) \<and> Am ! j = Fin (Max (set (map (\<lambda>r. r ! j) W))))"
proof -
  have ne: "map (map Fin) W \<noteq> []" using assms(1) by simp
  have "find_ideal_solutions (Arr2 n (map (map Fin) W)) t =
      Inr (map (ideal_at True (map (map Fin) W) t) [0..<n], map (ideal_at False (map (map Fin) W) t) [0..<n])"
    using ne assms(3) by (rule find_ideal_result)
  then show ?thesis
    using assms(4) ideal_at_Fin[OF assms(1,2,4)] by simp
qed

theorem ideal_points_are_column_extrema_witness:
  "\<exists>Ap Am. find_ideal_solutions (Arr2 2 (map (map Fin) [[1, 5], [3, 2]])) [''benefit'', ''cost''] = Inr (Ap, Am)
     \<and> length Ap = 2 \<and> length Am = 2
     \<and> ([''benefit'', ''cost''] ! 1 = ''benefit'' \<longrightarrow>
          Ap ! 1 = Fin (Max (set (map (\<lambda>r. r ! 1) [[1, 5], [3, 2]])))
          \<and> Am ! 1 = Fin (Min (set (map (\<lambda>r. r ! 1) [[1, 5], [3, 2]]))))
     \<and> ([''benefit'', ''cost''] ! 1 = ''cost'' \<longrightarrow>
          Ap ! 1 = Fin (Min (set (map (\<lambda>r. r ! 1) [[1, 5], [3, 2]])))
          \<and> Am ! 1 = Fin (Max (set (map (\<lambda>r. r ! 1) [[1, 5], [3, 2]]))))"
  by (rule ideal_points_are_column_extrema) simp_all

section \<open>The preference scorer\<close>

lemma fsub_self: "fsub x x = Fin 0 \<or> fsub x x = NaN"
  by (cases x) (simp_all add: fsub_def)

lemma foldl_fadd_zero_or_nan:
  assumes "a = Fin 0 \<or> a = NaN" "\<forall>x\<in>set xs. x = Fin 0 \<or> x = NaN"
  shows "foldl fadd a xs = Fin 0 \<or> foldl fadd a xs = NaN"
  using assms
proof (induction xs arbitrary: a)
  case Nil
  then show ?case by simp
next
  case (Cons x xs)
  have "fadd a x = Fin 0 \<or> fadd a x = NaN" using Cons.prems by auto
  then show ?case using Cons by simp
qed

lemma dist_at_self:
  assumes "\<And>j. j < n \<Longrightarrow> a j = row j"
  shows "dist_at n row a = Fin 0 \<or> dist_at n row a = NaN"
proof -
  have "\<forall>x\<in>set (map (\<lambda>j. fsquare (fsub (row j) (a j))) [0..<n]). x = Fin 0 \<or> x = NaN"
  proof
    fix x assume "x \<in> set (map (\<lambda>j. fsquare (fsub (row j) (a j))) [0..<n])"
    then obtain j where j: "j < n" "x = fsquare (fsub (row j) (a j))" by auto
    then have "x = fsquare (fsub (row j) (row j))" using assms by simp
    then show "x = Fin 0 \<or> x = NaN" using fsub_self[of "row j"] by auto
  qed
  then have "np_sum (map (\<lambda>j. fsquare (fsub (row j) (a j))) [0..<n]) = Fin 0
      \<or> np_sum (map (\<lambda>j. fsquare (fsub (row j) (a j))) [0..<n]) = NaN"
    unfolding np_sum_def by (intro foldl_fadd_zero_or_nan) simp_all
  then show ?thesis unfolding dist_at_def by auto
qed

lemma single_row_ideal:
  assumes "j < n"
  shows "ideal_at b (weighted_rows n [r] w) t j = weighted_entry [r] w 0 j"
proof -
  have "column (weighted_rows n [r] w) j = [weighted_entry [r] w 0 j]"
    using assms by (simp add: weighted_rows_def column_mk_matrix)
  then show ?thesis by (simp add: ideal_at_def col_max_def col_min_def)
qed

lemma single_row_pref: "pref_entry n [r] w t 0 = 0"
proof -
  have "dist_entry b n [r] w t 0 = Fin 0 \<or> dist_entry b n [r] w t 0 = NaN" for b
    unfolding dist_entry_def by (rule dist_at_self) (simp add: single_row_ideal)
  from this[of True] this[of False] show ?thesis
    by (auto simp: pref_entry_def pref_at_def)
qed

lemma pref_at_Fin_formula:
  assumes "0 \<le> p" "0 \<le> m" "is_double m"
  shows "(round64 (p + m) = Fin 0 \<longrightarrow> pref_at (Fin p) (Fin m) = 0)
     \<and> (round64 (p + m) = PInf \<longrightarrow> pref_at (Fin p) (Fin m) = 0)
     \<and> (\<forall>s. round64 (p + m) = Fin s \<and> s \<noteq> 0 \<longrightarrow> Fin (pref_at (Fin p) (Fin m)) = round64 (m / s))"
proof (intro conjI impI allI)
  have m: "round64 m = Fin m" using assms(3) by (rule round64_exact)
  have le: "fle (Fin m) (round64 (p + m))" using round64_mono[of m "p + m"] assms(1) m by simp
  {
    assume z: "round64 (p + m) = Fin 0"
    then have "m = 0" using le assms(2) by simp
    then show "pref_at (Fin p) (Fin m) = 0" using z by (simp add: pref_at_def)
  }
  {
    assume "round64 (p + m) = PInf"
    then show "pref_at (Fin p) (Fin m) = 0" by (simp add: pref_at_def)
  }
  {
    fix s assume h: "round64 (p + m) = Fin s \<and> s \<noteq> 0"
    then have msv: "m \<le> s" using le by simp
    then have pos: "0 < s" using h assms(2) by linarith
    then have "0 \<le> m / s" "m / s \<le> 1" using assms(2) msv by simp_all
    then obtain q where "round64 (m / s) = Fin q"
      using round64_unit by blast
    then show "Fin (pref_at (Fin p) (Fin m)) = round64 (m / s)" using h by (simp add: pref_at_def)
  }
qed

lemma fsqrt_Fin_double: "fsqrt x = Fin p \<Longrightarrow> 0 \<le> p \<and> is_double p"
  using fsqrt_cases[of x] by auto




section \<open>Distances\<close>

lemma is_double_pow2: "- 1074 \<le> e \<Longrightarrow> e < 1024 \<Longrightarrow> is_double (pow2 e)"
  using is_double_scaled[of 1 e] by simp

lemma round64_pow2: "- 1074 \<le> e \<Longrightarrow> e < 1024 \<Longrightarrow> round64 (pow2 e) = Fin (pow2 e)"
  by (intro round64_exact is_double_pow2)

lemma is_double_pos_ge:
  assumes "is_double x" "0 < x"
  shows "pow2 (- 1074) \<le> x"
proof -
  from assms(1) obtain z where z: "x / ulp x = of_int z" unfolding is_double_def by (auto elim: Ints_cases)
  have "0 < x / ulp x" using assms(2) by simp
  then have "0 < z" using z by simp
  then have "1 \<le> x / ulp x" using z by simp
  then have "ulp x \<le> x" by (simp add: le_divide_eq)
  moreover have "pow2 (- 1074) \<le> ulp x" unfolding ulp_def using expo_ge[of x] by simp
  ultimately show ?thesis by linarith
qed

lemma sqrt_pow2_min: "sqrt (pow2 (- 1074)) = pow2 (- 537)"
proof (rule real_sqrt_unique)
  have "(pow2 (- 537))\<^sup>2 = pow2 (- 537) * pow2 (- 537)" by (simp add: power2_eq_square)
  also have "\<dots> = pow2 (- 537 + - 537)" by (simp only: pow2_add)
  finally show "(pow2 (- 537))\<^sup>2 = pow2 (- 1074)" by simp
qed simp

lemma dist_value_cases:
  "dist_value d \<longleftrightarrow> d = PInf \<or> (\<exists>y. d = Fin y \<and> 0 \<le> y \<and> is_double y)"
  by (cases d) (simp_all add: dist_value_def)

lemma dist_value_round64: "0 \<le> x \<Longrightarrow> dist_value (round64 x)"
proof -
  assume x: "0 \<le> x"
  show ?thesis
  proof (cases "round64 x")
    case (Fin y)
    then show ?thesis using round64_Fin_nonneg[OF Fin x] round64_is_double[OF Fin]
      by (simp add: dist_value_def)
  next
    case NInf
    then show ?thesis using round64_not_NInf[OF x] by simp
  qed (simp_all add: dist_value_def)
qed

lemma dist_value_zero [simp]: "dist_value (Fin 0)"
  by (simp add: dist_value_def)

lemma dist_value_nonneg: "dist_value d \<Longrightarrow> fle (Fin 0) d"
  by (auto simp: dist_value_cases)

lemma dist_value_fsquare: "x \<noteq> NaN \<Longrightarrow> dist_value (fsquare x)"
  by (cases x) (simp_all add: dist_value_round64, simp_all add: dist_value_def)

lemma dist_value_fadd:
  assumes "dist_value a" "dist_value b"
  shows "dist_value (fadd a b) \<and> (fadd a b = Fin 0 \<longleftrightarrow> a = Fin 0 \<and> b = Fin 0)"
proof -
  consider "a = PInf" | "b = PInf" | x y where "a = Fin x" "b = Fin y" "0 \<le> x" "0 \<le> y" "is_double x" "is_double y"
    using assms unfolding dist_value_cases by blast
  then show ?thesis
  proof cases
    case 1
    then show ?thesis using assms(2) by (auto simp: dist_value_cases)
  next
    case 2
    then show ?thesis using assms(1) by (auto simp: dist_value_cases)
  next
    case 3
    have v: "dist_value (round64 (x + y))" using 3 by (intro dist_value_round64) simp
    have "x = 0 \<and> y = 0" if z: "round64 (x + y) = Fin 0"
    proof -
      have "fle (round64 x) (round64 (x + y))" "fle (round64 y) (round64 (x + y))"
        using 3 by (intro round64_mono; simp)+
      then have "x \<le> 0" "y \<le> 0" using z 3 by (simp_all add: round64_exact)
      then show ?thesis using 3 by simp
    qed
    then show ?thesis using 3 v by auto
  qed
qed

lemma dist_value_foldl:
  assumes "dist_value a" "\<forall>x\<in>set xs. dist_value x"
  shows "dist_value (foldl fadd a xs)
     \<and> (foldl fadd a xs = Fin 0 \<longleftrightarrow> a = Fin 0 \<and> (\<forall>x\<in>set xs. x = Fin 0))"
  using assms
proof (induction xs arbitrary: a)
  case Nil
  then show ?case by simp
next
  case (Cons x xs)
  have s: "dist_value (fadd a x)" "fadd a x = Fin 0 \<longleftrightarrow> a = Fin 0 \<and> x = Fin 0"
    using dist_value_fadd[of a x] Cons.prems by simp_all
  show ?case using Cons.IH[OF s(1)] Cons.prems(2) s(2) by auto
qed

lemma dist_value_fsqrt:
  assumes "dist_value a"
  shows "dist_value (fsqrt a) \<and> (fsqrt a = Fin 0 \<longleftrightarrow> a = Fin 0)"
proof -
  consider "a = PInf" | x where "a = Fin x" "0 \<le> x" "is_double x"
    using assms unfolding dist_value_cases by blast
  then show ?thesis
  proof cases
    case 1
    then show ?thesis by (simp add: dist_value_def)
  next
    case 2
    have v: "dist_value (round64 (sqrt x))" using 2 by (intro dist_value_round64) simp
    have "x = 0" if z: "round64 (sqrt x) = Fin 0"
    proof (rule ccontr)
      assume "x \<noteq> 0"
      then have "pow2 (- 1074) \<le> x" using 2 by (intro is_double_pos_ge) simp_all
      then have "sqrt (pow2 (- 1074)) \<le> sqrt x" by simp
      then have "pow2 (- 537) \<le> sqrt x" by (simp only: sqrt_pow2_min)
      then have "fle (round64 (pow2 (- 537))) (round64 (sqrt x))" by (rule round64_mono)
      then show False using z by (simp add: round64_pow2)
    qed
    then show ?thesis using 2 v by auto
  qed
qed

lemma dist_at_value:
  assumes "\<And>j. j < n \<Longrightarrow> row j \<noteq> NaN \<and> a j \<noteq> NaN \<and> fsub (row j) (a j) \<noteq> NaN"
  shows "dist_value (dist_at n row a)
     \<and> (dist_at n row a = Fin 0 \<longleftrightarrow> (\<forall>j<n. fsquare (fsub (row j) (a j)) = Fin 0))"
proof -
  let ?ts = "map (\<lambda>j. fsquare (fsub (row j) (a j))) [0..<n]"
  have "\<forall>x\<in>set ?ts. dist_value x" using assms by (auto intro!: dist_value_fsquare)
  then have s: "dist_value (np_sum ?ts)" "np_sum ?ts = Fin 0 \<longleftrightarrow> (\<forall>x\<in>set ?ts. x = Fin 0)"
    unfolding np_sum_def using dist_value_foldl[of "Fin 0" ?ts] by simp_all
  have "(\<forall>x\<in>set ?ts. x = Fin 0) \<longleftrightarrow> (\<forall>j<n. fsquare (fsub (row j) (a j)) = Fin 0)" by auto
  then show ?thesis unfolding dist_at_def using dist_value_fsqrt[OF s(1)] s(2) by simp
qed

lemma Fin_matrix_mk:
  assumes "\<forall>r\<in>set M. length r = n"
  shows "map (map Fin) M = mk_matrix (length M) n (\<lambda>i j. Fin (M ! i ! j))"
proof -
  have "M = mk_matrix (length M) n (\<lambda>i j. M ! i ! j)" using assms by (rule rect_mk_matrix)
  then have "map (map Fin) M = map (map Fin) (mk_matrix (length M) n (\<lambda>i j. M ! i ! j))" by simp
  then show ?thesis by (simp only: map_map_mk_matrix)
qed

lemma fsub_same_Fin [simp]: "fsub (Fin a) (Fin a) = Fin 0"
  by simp

lemma distance_to_Fin:
  assumes "\<forall>r\<in>set W. length r = n" "length a = n"
  shows "distance_to (Arr2 n (map (map Fin) W)) (map Fin a) =
     Inr (map (\<lambda>i. dist_at n (\<lambda>j. Fin (W ! i ! j)) (\<lambda>j. Fin (a ! j))) [0..<length W])"
proof -
  have "distance_to (Arr2 n (map (map Fin) W)) (map Fin a) =
      Inr (map (\<lambda>i. dist_at n (\<lambda>j. Fin (W ! i ! j)) ((!) (map Fin a))) [0..<length W])"
    unfolding Fin_matrix_mk[OF assms(1)] by (rule distance_to_mk_matrix) (simp add: assms(2))
  moreover have "dist_at n (\<lambda>j. Fin (W ! i ! j)) ((!) (map Fin a)) =
      dist_at n (\<lambda>j. Fin (W ! i ! j)) (\<lambda>j. Fin (a ! j))" for i
    by (rule dist_at_cong) (simp add: assms(2))
  ultimately show ?thesis by simp
qed

lemma dist_at_Fin_props:
  "fle (Fin 0) (dist_at n (\<lambda>j. Fin (x j)) (\<lambda>j. Fin (y j)))
   \<and> (dist_at n (\<lambda>j. Fin (x j)) (\<lambda>j. Fin (y j)) = Fin 0 \<longleftrightarrow>
        (\<forall>j<n. fsquare (fsub (Fin (x j)) (Fin (y j))) = Fin 0))
   \<and> ((\<forall>j<n. x j = y j) \<longrightarrow> dist_at n (\<lambda>j. Fin (x j)) (\<lambda>j. Fin (y j)) = Fin 0)"
proof -
  have v: "dist_value (dist_at n (\<lambda>j. Fin (x j)) (\<lambda>j. Fin (y j)))"
    and z: "dist_at n (\<lambda>j. Fin (x j)) (\<lambda>j. Fin (y j)) = Fin 0 \<longleftrightarrow>
        (\<forall>j<n. fsquare (fsub (Fin (x j)) (Fin (y j))) = Fin 0)"
    using dist_at_value[of n "\<lambda>j. Fin (x j)" "\<lambda>j. Fin (y j)"] by simp_all
  have "dist_at n (\<lambda>j. Fin (x j)) (\<lambda>j. Fin (y j)) = Fin 0" if "\<forall>j<n. x j = y j"
    unfolding z using that by simp
  then show ?thesis using dist_value_nonneg[OF v] z by blast
qed

text \<open>
  Claim C8, as amended. For every weighted matrix of finite numbers and ideal points of
  its width, both distance vectors are non-negative in every component (a distance can
  be plus infinity, and is never NaN); \<open>D\<^sup>+[i]\<close> is zero whenever row \<open>i\<close> equals the
  positive ideal point on every criterion, and it is zero exactly when every squared
  difference \<open>(W[i][j] - A\<^sup>+[j])\<^sup>2\<close>, as computed in \<^verbatim>\<open>float64\<close>, is zero, which is also the
  case for a nonzero difference whose square underflows (likewise \<open>D\<^sup>-[i]\<close> and the
  negative ideal point).
\<close>

theorem distances_nonnegative_zero_at_ideal:
  assumes "\<forall>r\<in>set W. length r = n" "length ap = n" "length am = n"
  shows "\<exists>Dp Dm. calculate_distances (Arr2 n (map (map Fin) W)) (map Fin ap) (map Fin am)
                  = Inr (Dp, Dm)
     \<and> length Dp = length W \<and> length Dm = length W
     \<and> (\<forall>i<length W. fle (Fin 0) (Dp ! i) \<and> fle (Fin 0) (Dm ! i)
           \<and> ((\<forall>j<n. W ! i ! j = ap ! j) \<longrightarrow> Dp ! i = Fin 0)
           \<and> ((\<forall>j<n. W ! i ! j = am ! j) \<longrightarrow> Dm ! i = Fin 0)
           \<and> (Dp ! i = Fin 0 \<longleftrightarrow> (\<forall>j<n. fsquare (fsub (Fin (W ! i ! j)) (Fin (ap ! j))) = Fin 0))
           \<and> (Dm ! i = Fin 0 \<longleftrightarrow> (\<forall>j<n. fsquare (fsub (Fin (W ! i ! j)) (Fin (am ! j))) = Fin 0)))"
proof -
  define d where "d = (\<lambda>a. map (\<lambda>i. dist_at n (\<lambda>j. Fin (W ! i ! j)) (\<lambda>j. Fin (a ! j))) [0..<length W])"
  have cd: "calculate_distances (Arr2 n (map (map Fin) W)) (map Fin ap) (map Fin am)
      = Inr (d ap, d am)"
    unfolding calculate_distances_def d_def
    by (simp only: distance_to_Fin[OF assms(1,2)] distance_to_Fin[OF assms(1,3)] sum.case)
  have len: "length (d a) = length W" for a by (simp add: d_def)
  have p: "fle (Fin 0) (d a ! i)
      \<and> (d a ! i = Fin 0 \<longleftrightarrow> (\<forall>j<n. fsquare (fsub (Fin (W ! i ! j)) (Fin (a ! j))) = Fin 0))
      \<and> ((\<forall>j<n. W ! i ! j = a ! j) \<longrightarrow> d a ! i = Fin 0)" if "i < length W" for a i
    using that dist_at_Fin_props[of n "\<lambda>j. W ! i ! j" "\<lambda>j. a ! j"] by (simp add: d_def)
  show ?thesis using cd len p by blast
qed

theorem distances_nonnegative_zero_at_ideal_witness:
  "\<exists>Dp Dm. calculate_distances (Arr2 2 (map (map Fin) [[1, 5], [3, 2]])) (map Fin [3, 2]) (map Fin [1, 5])
                  = Inr (Dp, Dm)
     \<and> length Dp = length [[1, 5], [3, 2::real]] \<and> length Dm = length [[1, 5], [3, 2::real]]
     \<and> (\<forall>i<length [[1, 5], [3, 2::real]]. fle (Fin 0) (Dp ! i) \<and> fle (Fin 0) (Dm ! i)
           \<and> ((\<forall>j<2. [[1, 5], [3, 2::real]] ! i ! j = [3, 2] ! j) \<longrightarrow> Dp ! i = Fin 0)
           \<and> ((\<forall>j<2. [[1, 5], [3, 2::real]] ! i ! j = [1, 5] ! j) \<longrightarrow> Dm ! i = Fin 0)
           \<and> (Dp ! i = Fin 0 \<longleftrightarrow>
                (\<forall>j<2. fsquare (fsub (Fin ([[1, 5], [3, 2::real]] ! i ! j)) (Fin ([3, 2] ! j))) = Fin 0))
           \<and> (Dm ! i = Fin 0 \<longleftrightarrow>
                (\<forall>j<2. fsquare (fsub (Fin ([[1, 5], [3, 2::real]] ! i ! j)) (Fin ([1, 5] ! j))) = Fin 0)))"
  by (rule distances_nonnegative_zero_at_ideal) simp_all

text \<open>
  Claim C8 as stated fails: the first row \<open>(2\<^sup>-\<^sup>6\<^sup>0\<^sup>0, 0)\<close> differs from the positive ideal
  point \<open>(0, 0)\<close>, but the square of the difference underflows to zero and \<open>D\<^sup>+[0]\<close> is
  \<open>0\<close>.
\<close>

theorem distance_zero_counterexample:
  "calculate_distances (Arr2 2 [[Fin (pow2 (- 600)), Fin 0], [Fin 0, Fin 0]]) [Fin 0, Fin 0] [Fin 0, Fin 0]
     = Inr ([Fin 0, Fin 0], [Fin 0, Fin 0])
   \<and> pow2 (- 600) \<noteq> 0"
proof -
  have a: "round64 (pow2 (- 600)) = Fin (pow2 (- 600))" by (rule round64_pow2) simp_all
  have "pow2 (- 600) * pow2 (- 600) = pow2 (- 600 + - 600)" by (simp only: pow2_add)
  also have "\<dots> = pow2 (- 1200)" by simp
  finally have m: "pow2 (- 600) * pow2 (- 600) = pow2 (- 1200)" .
  have b: "round64 (pow2 (- 1200)) = Fin 0" by (rule round64_underflow) simp
  show ?thesis
    by (simp add: calculate_distances_def distance_to_def broadcast2_def nd_map_def sum_axis1_def
        np_sum_def a m b)
qed

section \<open>The normalizer on matrices of finite numbers\<close>

lemma map_index_rows: "map (\<lambda>i. g (M ! i)) [0..<length M] = map g M"
  by (rule nth_equalityI) simp_all

lemma norm_den_Fin:
  "norm_den (length M) (\<lambda>i j. Fin (M ! i ! j)) j = fsqrt (np_sum (map (\<lambda>r. fsquare (Fin (r ! j))) M))"
  unfolding norm_den_def by (simp only: map_index_rows[of "\<lambda>r. fsquare (Fin (r ! j))" M])

lemma column_norm_value:
  "dist_value (fsqrt (np_sum (map (\<lambda>r. fsquare (Fin (r ! j))) M)))
   \<and> (fsqrt (np_sum (map (\<lambda>r. fsquare (Fin (r ! j))) M)) = Fin 0 \<longleftrightarrow>
        (\<forall>r\<in>set M. fsquare (Fin (r ! j)) = Fin 0))"
proof -
  let ?ts = "map (\<lambda>r. fsquare (Fin (r ! j))) M"
  have "\<forall>x\<in>set ?ts. dist_value x"
  proof
    fix x assume "x \<in> set ?ts"
    then obtain r where "x = fsquare (Fin (r ! j))" by auto
    then show "dist_value x" by (simp only: dist_value_fsquare fl.distinct not_False_eq_True)
  qed
  then have s: "dist_value (np_sum ?ts)" "np_sum ?ts = Fin 0 \<longleftrightarrow> (\<forall>x\<in>set ?ts. x = Fin 0)"
    unfolding np_sum_def using dist_value_foldl[of "Fin 0" ?ts] by simp_all
  have "(\<forall>x\<in>set ?ts. x = Fin 0) \<longleftrightarrow> (\<forall>r\<in>set M. fsquare (Fin (r ! j)) = Fin 0)"
    by (simp del: fsquare_simps)
  then show ?thesis using dist_value_fsqrt[OF s(1)] s(2) by simp
qed




section \<open>The route\<close>

text \<open>
  The route rejects a missing project and a project without criteria or without
  alternatives. On every other project the matrix it assembles is rectangular with one
  weight and one type per criterion, so the engine returns a result and the response
  carries the ranking built from its scores.
\<close>

lemma calculate_topsis_rejects:
  "calculate_topsis None = Inr Http404"
  "criteria p = [] \<or> alternatives p = [] \<Longrightarrow> calculate_topsis (Some p) = Inr Http400"
  by (simp_all add: calculate_topsis_def)

lemma calculate_topsis_returns:
  assumes "criteria p \<noteq> []" "alternatives p \<noteq> []"
  shows "\<exists>res rk. calculate_topsis (Some p) =
             Inr (Http200 \<lparr>results = res, alternative_names = map alt_name (alternatives p),
                           criteria_names = map crit_name (criteria p), ranking = rk\<rparr>)
     \<and> perform_topsis_calculation
           (map (\<lambda>alt. map (lookup_value alt) (criteria p)) (alternatives p))
           (map weight (criteria p)) (map criterion_type (criteria p)) = Inr res
     \<and> create_ranking (map alt_name (alternatives p)) (preference_values res) = Inr rk
     \<and> length (preference_values res) = length (alternatives p)"
proof -
  let ?data = "map (\<lambda>alt. map (lookup_value alt) (criteria p)) (alternatives p)"
  let ?n = "length (criteria p)"
  have ne: "?data \<noteq> []" using assms(2) by simp
  have rect: "\<forall>r\<in>set ?data. length r = ?n" by auto
  obtain res where res: "perform_topsis_calculation ?data (map weight (criteria p))
      (map criterion_type (criteria p)) = Inr res"
      "length (preference_values res) = length (alternatives p)"
    using perform_explicit[OF ne rect, of "map weight (criteria p)" "map criterion_type (criteria p)"]
    by simp
  obtain rk where rk: "create_ranking (map alt_name (alternatives p)) (preference_values res) = Inr rk"
    using create_ranking_properties[of "preference_values res" "map alt_name (alternatives p)"] res(2)
    by auto
  show ?thesis using assms res rk by (simp add: calculate_topsis_def)
qed

end
